theory Spec2Isabelle
  imports Complex_Main "HOL-Library.Word" "HOL-Library.Multiset" "HOL-Library.Char_ord" "HOL-Library.List_Lexorder"
begin

unbundle bit_operations_syntax

section \<open>Transport: the subscription table\<close>

type_synonym byte = "8 word"
type_synonym peer_ID = string
type_synonym chan_id = nat

text \<open>
  Modelled from the spec: the enumeration \<open>THORChainTSSMessageType\<close> is declared outside the
  source files at hand; its members are the message types listed in the data model.
\<close>

datatype THORChainTSSMessageType =
    JoinPartyRequest | JoinPartyResponse
  | TSSKeyGenMsg | TSSKeyGenVerMsg
  | TSSKeySignMsg | TSSKeySignVerMsg
  | TSSControlMsg | TSSTaskDone | SignatureNotifier

text \<open>
  Modelled from the spec: \<open>MessageIDSubscriber\<close> (with \<open>NewMessageIDSubscriber\<close>,
  \<open>Subscribe\<close>, \<open>UnSubscribe\<close>, \<open>IsEmpty\<close> and \<open>GetSubscriber\<close>) is declared outside the
  source files at hand. The data model gives the subscription table as
  \<open>message-type \<rightarrow> { msg-id \<rightarrow> channel }\<close>, so the inner subscriber is a finite map from
  message ids to channels; a channel is named by a number.
\<close>

type_synonym MessageIDSubscriber = "string \<rightharpoonup> chan_id"

definition NewMessageIDSubscriber :: MessageIDSubscriber where
  "NewMessageIDSubscriber = Map.empty"

definition Subscribe :: "MessageIDSubscriber \<Rightarrow> string \<Rightarrow> chan_id \<Rightarrow> MessageIDSubscriber" where
  "Subscribe ms msgID channel = ms(msgID \<mapsto> channel)"

definition UnSubscribe :: "MessageIDSubscriber \<Rightarrow> string \<Rightarrow> MessageIDSubscriber" where
  "UnSubscribe ms msgID = ms(msgID := None)"

definition IsEmpty :: "MessageIDSubscriber \<Rightarrow> bool" where
  "IsEmpty ms \<longleftrightarrow> dom ms = {}"

definition GetSubscriber :: "MessageIDSubscriber \<Rightarrow> string \<Rightarrow> chan_id option" where
  "GetSubscriber ms msgID = ms msgID"

text \<open>
  The part of \<open>Communication\<close> that the operations below read or write. The Go map
  \<open>subscribers\<close> holds pointers: \<open>Some None\<close> is a key bound to the nil pointer, which
  \<open>CancelSubscribe\<close> tests for.
\<close>

record Communication =
  rendezvous :: string
  host_ID :: peer_ID
  subscribers :: "THORChainTSSMessageType \<rightharpoonup> MessageIDSubscriber option"

definition NewCommunication :: "string \<Rightarrow> peer_ID \<Rightarrow> Communication" where
  "NewCommunication rv h = \<lparr>rendezvous = rv, host_ID = h, subscribers = Map.empty\<rparr>"

text \<open>
  \<open>SetSubscribe\<close>: a missing topic gets a fresh subscriber first. Calling \<open>Subscribe\<close>
  through a stored nil pointer would panic: the result \<open>None\<close>.
\<close>

definition SetSubscribe ::
  "Communication \<Rightarrow> THORChainTSSMessageType \<Rightarrow> string \<Rightarrow> chan_id \<Rightarrow> Communication option" where
  "SetSubscribe c topic msgID channel =
     (case subscribers c topic of
        None \<Rightarrow>
          Some (c\<lparr>subscribers := (subscribers c)(topic \<mapsto> Some (Subscribe NewMessageIDSubscriber msgID channel))\<rparr>)
      | Some None \<Rightarrow> None
      | Some (Some ms) \<Rightarrow>
          Some (c\<lparr>subscribers := (subscribers c)(topic \<mapsto> Some (Subscribe ms msgID channel))\<rparr>))"

text \<open>\<open>getSubscriber\<close>: \<open>Inl ()\<close> is the panic of a call through a nil pointer, \<open>Inr None\<close> is nil.\<close>

definition getSubscriber ::
  "Communication \<Rightarrow> THORChainTSSMessageType \<Rightarrow> string \<Rightarrow> unit + chan_id option" where
  "getSubscriber c topic msgID =
     (case subscribers c topic of
        None \<Rightarrow> Inr None
      | Some None \<Rightarrow> Inl ()
      | Some (Some ms) \<Rightarrow> Inr (GetSubscriber ms msgID))"

definition CancelSubscribe ::
  "Communication \<Rightarrow> THORChainTSSMessageType \<Rightarrow> string \<Rightarrow> Communication" where
  "CancelSubscribe c topic msgID =
     (case subscribers c topic of
        None \<Rightarrow> c
      | Some None \<Rightarrow> c
      | Some (Some ms) \<Rightarrow>
          (let ms' = UnSubscribe ms msgID in
           if IsEmpty ms' then c\<lparr>subscribers := (subscribers c)(topic := None)\<rparr>
           else c\<lparr>subscribers := (subscribers c)(topic \<mapsto> Some ms')\<rparr>))"

text \<open>A history of the table: any sequence of the two writing operations.\<close>

datatype sub_op =
    OpSetSubscribe THORChainTSSMessageType string chan_id
  | OpCancelSubscribe THORChainTSSMessageType string

fun apply_sub_op :: "Communication \<Rightarrow> sub_op \<Rightarrow> Communication option" where
  "apply_sub_op c (OpSetSubscribe t m ch) = SetSubscribe c t m ch"
| "apply_sub_op c (OpCancelSubscribe t m) = Some (CancelSubscribe c t m)"

fun run_sub_ops :: "Communication \<Rightarrow> sub_op list \<Rightarrow> Communication option" where
  "run_sub_ops c [] = Some c"
| "run_sub_ops c (x # xs) =
     (case apply_sub_op c x of None \<Rightarrow> None | Some c' \<Rightarrow> run_sub_ops c' xs)"

text \<open>No empty leaves: every topic present is bound to a subscriber with at least one entry.\<close>

definition no_empty_leaves :: "Communication \<Rightarrow> bool" where
  "no_empty_leaves c \<longleftrightarrow>
     (\<forall>t v. subscribers c t = Some v \<longrightarrow> (\<exists>ms msgID ch. v = Some ms \<and> ms msgID = Some ch))"

section \<open>Transport: framing and the inbound read loop\<close>

definition MaxPayload :: nat where
  "MaxPayload = 81920"

text \<open>
  Modelled from the spec: the constant \<open>LengthHeader\<close> is declared outside the source files
  at hand; every frame is \<open>u32-le length || payload\<close>, so the header has four bytes.
\<close>

definition LengthHeader :: nat where
  "LengthHeader = 4"

text \<open>\<open>binary.LittleEndian\<close>: the two conversions the transport uses.\<close>

definition PutUint32 :: "32 word \<Rightarrow> byte list" where
  "PutUint32 v = [ucast v, ucast (drop_bit 8 v), ucast (drop_bit 16 v), ucast (drop_bit 24 v)]"

definition Uint32 :: "byte list \<Rightarrow> 32 word" where
  "Uint32 b = ucast (b ! 0) OR push_bit 8 (ucast (b ! 1)) OR push_bit 16 (ucast (b ! 2))
              OR push_bit 24 (ucast (b ! 3))"

record Message =
  PeerID :: peer_ID
  Payload :: "byte list"

record WrappedMessage =
  MessageType :: THORChainTSSMessageType
  MsgID :: string
  WrappedPayload :: "byte list"

text \<open>
  An inbound stream is what its successive \<open>Read\<close> calls meet: a chunk of bytes that has
  arrived, the end of the stream, or a failure. A \<open>Read\<close> on a stream with nothing left waits
  until the read deadline passes and fails.
\<close>

datatype read_event = Data "byte list" | StreamEOF | StreamFail

datatype read_err = ErrEOF | ErrRead

text \<open>
  \<open>stream.Read(buf)\<close> with \<open>len(buf) = k\<close>: the number of bytes read, the buffer afterwards
  (zero where nothing was read), the error, and the rest of the stream.
\<close>

fun stream_Read ::
  "nat \<Rightarrow> read_event list \<Rightarrow> nat \<times> byte list \<times> read_err option \<times> read_event list" where
  "stream_Read k [] = (0, replicate k 0, Some ErrRead, [])"
| "stream_Read k (StreamEOF # evs) = (0, replicate k 0, Some ErrEOF, evs)"
| "stream_Read k (StreamFail # evs) = (0, replicate k 0, Some ErrRead, evs)"
| "stream_Read k (Data bs # evs) =
     (min k (length bs), take k bs @ replicate (k - length bs) 0, None,
      if length bs \<le> k then evs else Data (drop k bs) # evs)"

text \<open>
  What the reader meets besides the bytes, by iteration of its loop: whether \<open>stopChan\<close> is
  found closed, and whether setting the read deadline fails.
\<close>

record reader_env =
  remote_peer :: peer_ID
  stop_closed :: "nat \<Rightarrow> bool"
  header_deadline_fails :: "nat \<Rightarrow> bool"
  body_deadline_fails :: "nat \<Rightarrow> bool"
  unmarshal :: "byte list \<Rightarrow> WrappedMessage option"

datatype log_entry =
    LogFailSetReadHeaderTimeout peer_ID
  | LogFailReadHeader peer_ID
  | LogShortRead nat
  | LogOversize peer_ID "32 word"
  | LogFailSetReadDeadline
  | LogFailReadBody peer_ID
  | LogShortBody "32 word" nat
  | LogFailUnmarshal
  | LogNoMsgID string
  | LogPanicNilSubscriber

text \<open>One pass through the body of the loop of \<open>readFromStream\<close>.\<close>

datatype frame_step =
    Return "log_entry list"
  | Continue "log_entry list" "(chan_id \<times> Message) option" "read_event list"

definition readFrame ::
  "reader_env \<Rightarrow> Communication \<Rightarrow> nat \<Rightarrow> read_event list \<Rightarrow> frame_step" where
  "readFrame env c i evs =
     (if stop_closed env i then Return []
      else if header_deadline_fails env i then Return [LogFailSetReadHeaderTimeout (remote_peer env)]
      else
        (case stream_Read LengthHeader evs of
           (n, length_buf, Some ErrEOF, evs1) \<Rightarrow> Return []
         | (n, length_buf, Some ErrRead, evs1) \<Rightarrow> Return [LogFailReadHeader (remote_peer env)]
         | (n, length_buf, None, evs1) \<Rightarrow>
             if n < LengthHeader then Return [LogShortRead n]
             else
               (let l = Uint32 length_buf in
                if unat l > MaxPayload then Return [LogOversize (remote_peer env) l]
                else
                  (let lg1 = (if body_deadline_fails env i then [LogFailSetReadDeadline] else []) in
                   case stream_Read (unat l) evs1 of
                     (n2, buf, Some e, evs2) \<Rightarrow> Return (lg1 @ [LogFailReadBody (remote_peer env)])
                   | (n2, buf, None, evs2) \<Rightarrow>
                       (let lg2 = lg1 @ (if n2 \<noteq> unat l then [LogShortBody l n2] else []) in
                        case unmarshal env buf of
                          None \<Rightarrow> Continue (lg2 @ [LogFailUnmarshal]) None evs2
                        | Some wrappedMsg \<Rightarrow>
                            (case getSubscriber c (MessageType wrappedMsg) (MsgID wrappedMsg) of
                               Inl u \<Rightarrow> Return (lg2 @ [LogPanicNilSubscriber])
                             | Inr None \<Rightarrow> Continue (lg2 @ [LogNoMsgID (MsgID wrappedMsg)]) None evs2
                             | Inr (Some channel) \<Rightarrow>
                                 Continue lg2
                                   (Some (channel, \<lparr>PeerID = remote_peer env, Payload = buf\<rparr>))
                                   evs2))))))"

text \<open>What is left of a stream: one for each event and one for each byte still to be read.\<close>

fun stream_size :: "read_event list \<Rightarrow> nat" where
  "stream_size [] = 0"
| "stream_size (Data bs # evs) = Suc (length bs) + stream_size evs"
| "stream_size (e # evs) = Suc (stream_size evs)"

lemma stream_Read_size_le:
  "stream_Read k evs = (n, buf, err, evs') \<Longrightarrow> stream_size evs' \<le> stream_size evs"
  by (induction k evs rule: stream_Read.induct) (auto split: if_splits)

lemma stream_Read_size_less:
  "stream_Read k evs = (n, buf, None, evs') \<Longrightarrow> 0 < n \<Longrightarrow> stream_size evs' < stream_size evs"
  by (induction k evs rule: stream_Read.induct) (auto split: if_splits)

lemma readFrame_Continue_size:
  assumes "readFrame env c i evs = Continue lg d evs'"
  shows "stream_size evs' < stream_size evs"
proof -
  obtain n hb e1 evs1 where r1: "stream_Read LengthHeader evs = (n, hb, e1, evs1)"
    by (metis prod_cases4)
  obtain n2 buf e2 evs2 where
    r2: "stream_Read (unat (Uint32 hb)) evs1 = (n2, buf, e2, evs2)"
    by (metis prod_cases4)
  from assms r1 r2 have "e1 = None" "\<not> n < LengthHeader" "evs' = evs2"
    by (auto simp: readFrame_def Let_def
        split: if_splits option.splits read_err.splits sum.splits)
  moreover have "stream_size evs1 < stream_size evs"
    using stream_Read_size_less [of LengthHeader evs n hb evs1] r1 calculation
    by (simp add: LengthHeader_def)
  moreover have "stream_size evs2 \<le> stream_size evs1"
    using stream_Read_size_le [OF r2] .
  ultimately show ?thesis by simp
qed

text \<open>
  The result of \<open>readFromStream\<close>: the messages put on subscriber channels, in order, and the
  log. The loop ends with the deferred \<open>stream.Reset()\<close>.
\<close>

record reader_result =
  delivered :: "(chan_id \<times> Message) list"
  logged :: "log_entry list"

function readFromStream_loop ::
  "reader_env \<Rightarrow> Communication \<Rightarrow> nat \<Rightarrow> read_event list \<Rightarrow> reader_result" where
  "readFromStream_loop env c i evs =
     (case readFrame env c i evs of
        Return lg \<Rightarrow> \<lparr>delivered = [], logged = lg\<rparr>
      | Continue lg d evs' \<Rightarrow>
          (let r = readFromStream_loop env c (Suc i) evs' in
           \<lparr>delivered = (case d of None \<Rightarrow> [] | Some m \<Rightarrow> [m]) @ delivered r,
            logged = lg @ logged r\<rparr>))"
  by pat_completeness auto
termination
  by (relation "measure (\<lambda>(env, c, i, evs). stream_size evs)")
     (auto dest: readFrame_Continue_size)

definition readFromStream :: "reader_env \<Rightarrow> Communication \<Rightarrow> read_event list \<Rightarrow> reader_result" where
  "readFromStream env c evs = readFromStream_loop env c 0 evs"

section \<open>Transport: the outbound broadcast\<close>

text \<open>
  An outbound stream as the writer meets it: whether each \<open>SetWriteDeadline\<close> succeeds, and
  for each \<open>Write\<close> the error (\<open>None\<close>) or the number of bytes written.
\<close>

record out_stream =
  header_deadline_ok :: bool
  header_write :: "nat option"
  body_deadline_ok :: bool
  body_write :: "nat option"

text \<open>
  Discovery as \<open>broadcastToPeers\<close> meets it: whether \<open>FindPeers\<close> fails, what each
  \<open>select\<close> of the loop receives (a discovered peer, or \<open>stopChan\<close> closed; the end of the
  list is the peer channel closed), and what \<open>host.NewStream\<close> gives for a peer
  (\<open>None\<close> is its error).
\<close>

datatype select_event = Found peer_ID | StopChan

record network =
  FindPeers_fails :: bool
  peerChan :: "select_event list"
  NewStream :: "peer_ID \<Rightarrow> out_stream option"

datatype write_err =
    FailOpenStream peer_ID | FailSetWriteDeadline | FailWriteHeader | FailWriteBody
  | ShortWrite nat nat

definition shouldWeWriteToPeer :: "peer_ID \<Rightarrow> peer_ID list \<Rightarrow> bool" where
  "shouldWeWriteToPeer ai peers =
     (if length peers = 0 then True else list_ex (\<lambda>p. ai = p) peers)"

text \<open>\<open>connectToOnePeer\<close>: \<open>Inr None\<close> is the nil stream returned for the host itself.\<close>

definition connectToOnePeer ::
  "network \<Rightarrow> Communication \<Rightarrow> peer_ID \<Rightarrow> write_err + out_stream option" where
  "connectToOnePeer net c ai =
     (if ai = host_ID c then Inr None
      else (case NewStream net ai of
              None \<Rightarrow> Inl (FailOpenStream ai)
            | Some stream \<Rightarrow> Inr (Some stream)))"

text \<open>
  \<open>writeToStream\<close>: the error returned, and the bytes put on a stream to the peer when one
  was opened.
\<close>

definition writeToStream ::
  "network \<Rightarrow> Communication \<Rightarrow> peer_ID \<Rightarrow> byte list \<Rightarrow> write_err option \<times> byte list option" where
  "writeToStream net c ai msg =
     (if ai = host_ID c then (None, None)
      else
        (case connectToOnePeer net c ai of
           Inl e \<Rightarrow> (Some e, None)
         | Inr None \<Rightarrow> (None, None)
         | Inr (Some stream) \<Rightarrow>
             (let len = length msg;
                  buf = PutUint32 (of_nat len) in
              if \<not> header_deadline_ok stream then (Some FailSetWriteDeadline, Some [])
              else
                (case header_write stream of
                   None \<Rightarrow> (Some FailWriteHeader, Some [])
                 | Some n \<Rightarrow>
                     if n < LengthHeader then (Some (ShortWrite LengthHeader n), Some (take n buf))
                     else if \<not> body_deadline_ok stream then (Some FailSetWriteDeadline, Some buf)
                     else
                       (case body_write stream of
                          None \<Rightarrow> (Some FailWriteBody, Some buf)
                        | Some n2 \<Rightarrow>
                            if n2 < len then (Some (ShortWrite len n2), Some (buf @ take n2 msg))
                            else (None, Some (buf @ msg)))))))"

text \<open>
  The result of a broadcast: for each stream opened, the peer and the bytes written to it,
  and the errors logged.
\<close>

record broadcast_result =
  sent :: "(peer_ID \<times> byte list) list"
  write_errors :: "write_err list"

fun broadcast_loop ::
  "network \<Rightarrow> Communication \<Rightarrow> peer_ID list \<Rightarrow> byte list \<Rightarrow> select_event list \<Rightarrow> broadcast_result" where
  "broadcast_loop net c peers msg [] = \<lparr>sent = [], write_errors = []\<rparr>"
| "broadcast_loop net c peers msg (StopChan # evs) = \<lparr>sent = [], write_errors = []\<rparr>"
| "broadcast_loop net c peers msg (Found ai # evs) =
     (let r = broadcast_loop net c peers msg evs in
      if shouldWeWriteToPeer ai peers then
        (case writeToStream net c ai msg of
           (err, w) \<Rightarrow>
             \<lparr>sent = (case w of None \<Rightarrow> [] | Some bs \<Rightarrow> [(ai, bs)]) @ sent r,
              write_errors = (case err of None \<Rightarrow> [] | Some e \<Rightarrow> [e]) @ write_errors r\<rparr>)
      else r)"

definition broadcastToPeers ::
  "network \<Rightarrow> Communication \<Rightarrow> peer_ID list \<Rightarrow> byte list \<Rightarrow> broadcast_result" where
  "broadcastToPeers net c peers msg =
     (if length peers = 0 then \<lparr>sent = [], write_errors = []\<rparr>
      else if FindPeers_fails net then \<lparr>sent = [], write_errors = []\<rparr>
      else broadcast_loop net c peers msg (peerChan net))"

text \<open>\<open>Broadcast\<close> starts \<open>broadcastToPeers\<close> as a task of its own.\<close>

definition Broadcast ::
  "network \<Rightarrow> Communication \<Rightarrow> peer_ID list \<Rightarrow> byte list \<Rightarrow> broadcast_result" where
  "Broadcast net c peers msg = broadcastToPeers net c peers msg"

section \<open>Sessions: what key generation and key signing share\<close>

type_synonym Node = string

text \<open>
  Modelled from the spec: the blame verdict \<open>{reason, nodes[], is-unicast}\<close> and the reason
  tag \<open>TssTimeout\<close>; the package \<open>blame\<close> is outside the source files at hand.
\<close>

record Blame =
  FailReason :: string
  IsUnicast :: bool
  BlameNodes :: "Node list"

definition TssTimeout :: string where
  "TssTimeout = ''TssTimeout''"

text \<open>An outbound message of the MPC library, as far as the engine looks at it.\<close>

record tss_Message =
  msg_Type :: string
  msg_IsBroadcast :: bool
  msg_Bytes :: "byte list"

datatype Algo = EDDSAKEYGEN | EDDSAKEYSIGN

text \<open>
  The blame manager and the helpers of the packages \<open>conversion\<close>, \<open>messages\<close> and \<open>common\<close>
  are outside the source files at hand: they are parameters. A query returns its value
  together with whether it also returned an error, since the callers log the error and go on
  with the value.
\<close>

record session_env =
  GetUnicastBlame :: "string \<Rightarrow> Node list \<times> bool"
  GetBroadcastBlame :: "string \<Rightarrow> Node list \<times> bool"
  TssMissingShareBlame :: "nat \<Rightarrow> Algo \<Rightarrow> Node list \<times> bool \<times> bool"
  SetBlame :: "string \<Rightarrow> Node list \<Rightarrow> bool \<Rightarrow> string \<Rightarrow> Blame \<Rightarrow> Blame"
  AddBlameNodes :: "Node list \<Rightarrow> Blame \<Rightarrow> Blame"
  GetPreviousKeySignUicast :: "string \<Rightarrow> string"
  conversion_GetThreshold :: "int \<Rightarrow> int \<times> bool"
  P2PPeers :: "peer_ID list"
  ProcessOutCh :: "tss_Message \<Rightarrow> THORChainTSSMessageType \<Rightarrow> string option"
  EDDSAKEYGEN2a :: string
  EDDSAKEYGENROUNDS :: nat
  EDDSAKEYSIGNROUNDS :: nat

text \<open>The calls made on the blame manager, in order.\<close>

datatype blame_call =
    CallGetUnicastBlame string
  | CallGetBroadcastBlame string
  | CallTssMissingShareBlame nat Algo
  | CallSetBlame string "Node list" bool string
  | CallAddBlameNodes "Node list"
  | CallSetIsUnicast bool

datatype session_effect =
    EffProcessOutCh tss_Message THORChainTSSMessageType
  | EffNotifyTaskDone
  | EffSaveAddressBook
  | EffSaveLocalState

text \<open>
  The state of a session that the loops below read and write: the last outbound message and
  the verdict held by the blame manager, with the calls on it and the effects so far.
\<close>

record session_state =
  lastMsg :: "tss_Message option"
  blame :: Blame
  calls :: "blame_call list"
  effects :: "session_effect list"

definition do_GetUnicastBlame :: "session_env \<Rightarrow> string \<Rightarrow> session_state \<Rightarrow> Node list \<times> session_state" where
  "do_GetUnicastBlame env r st =
     (fst (GetUnicastBlame env r), st\<lparr>calls := calls st @ [CallGetUnicastBlame r]\<rparr>)"

definition do_GetBroadcastBlame :: "session_env \<Rightarrow> string \<Rightarrow> session_state \<Rightarrow> Node list \<times> session_state" where
  "do_GetBroadcastBlame env r st =
     (fst (GetBroadcastBlame env r), st\<lparr>calls := calls st @ [CallGetBroadcastBlame r]\<rparr>)"

definition do_SetBlame ::
  "session_env \<Rightarrow> string \<Rightarrow> Node list \<Rightarrow> bool \<Rightarrow> string \<Rightarrow> session_state \<Rightarrow> session_state" where
  "do_SetBlame env reason nodes u tag st =
     st\<lparr>blame := SetBlame env reason nodes u tag (blame st),
        calls := calls st @ [CallSetBlame reason nodes u tag]\<rparr>"

definition do_AddBlameNodes :: "session_env \<Rightarrow> Node list \<Rightarrow> session_state \<Rightarrow> session_state" where
  "do_AddBlameNodes env nodes st =
     st\<lparr>blame := AddBlameNodes env nodes (blame st), calls := calls st @ [CallAddBlameNodes nodes]\<rparr>"

text \<open>The sweep for missing shares that both timeouts end with.\<close>

definition missingShareSweep :: "session_env \<Rightarrow> nat \<Rightarrow> Algo \<Rightarrow> int \<Rightarrow> session_state \<Rightarrow> session_state" where
  "missingShareSweep env rounds algo threshold st =
     (if length (BlameNodes (blame st)) = 0 then
        (case TssMissingShareBlame env rounds algo of
           (blameNodesMisingShare, isUnicast, err) \<Rightarrow>
             (let st1 = st\<lparr>calls := calls st @ [CallTssMissingShareBlame rounds algo]\<rparr> in
              if length blameNodesMisingShare > 0 \<and> int (length blameNodesMisingShare) \<le> threshold
              then (let st2 = do_AddBlameNodes env blameNodesMisingShare st1 in
                    st2\<lparr>blame := (blame st2)\<lparr>IsUnicast := isUnicast\<rparr>,
                        calls := calls st2 @ [CallSetIsUnicast isUnicast]\<rparr>)
              else st1))
      else st)"

datatype tss_error =
    ErrChannelClosed
  | ErrExitSignal
  | ErrTimeoutBeforeSharedMessage
  | ErrTssTimeOut
  | ErrProcessOutCh string
  | ErrGetPubKey
  | ErrMarshalResult
  | ErrSaveLocalState
  | PanicNilLastMsg

text \<open>
  What one \<open>select\<close> of a session loop receives. The timer of \<open>time.After\<close> is started anew
  at each pass, so a run of the loop is a list of such events; a list that ends before the
  loop returns is a run still under way.
\<close>

datatype 'r loop_event =
    ErrChanClosed
  | StopChanClosed
  | TimeoutFired
  | OutCh tss_Message
  | EndCh 'r

section \<open>Key signing: \<open>processKeySign\<close>\<close>

record SignatureData =
  sig_M :: "byte list"
  sig_R :: "byte list"
  sig_S :: "byte list"
  sig_Signature :: "byte list"

text \<open>The timeout case of \<open>processKeySign\<close>.\<close>

definition keySignTimeout ::
  "session_env \<Rightarrow> session_state \<Rightarrow> (tss_error + SignatureData list) \<times> session_state" where
  "keySignTimeout env st =
     (let failReason = (if FailReason (blame st) = [] then TssTimeout else FailReason (blame st));
          threshold = fst (conversion_GetThreshold env (int (length (P2PPeers env)) + 1))
      in case lastMsg st of
           None \<Rightarrow> (Inl PanicNilLastMsg, st)
         | Some m \<Rightarrow>
             (let st1 =
                (if \<not> msg_IsBroadcast m then
                   (case do_GetUnicastBlame env (msg_Type m) st of
                      (blameNodesUnicast, s) \<Rightarrow>
                        if length blameNodesUnicast > 0 \<and> int (length blameNodesUnicast) \<le> threshold
                        then do_SetBlame env failReason blameNodesUnicast True ''KeySignTimeout broadcast'' s
                        else s)
                 else
                   (case do_GetUnicastBlame env (GetPreviousKeySignUicast env (msg_Type m)) st of
                      (blameNodesUnicast, s) \<Rightarrow>
                        if length blameNodesUnicast > 0 \<and> int (length blameNodesUnicast) \<le> threshold
                        then do_SetBlame env failReason blameNodesUnicast True ''KeySignTimeout unicast'' s
                        else s));
                  st2 = (case do_GetBroadcastBlame env (msg_Type m) st1 of
                           (blameNodesBroadcast, s) \<Rightarrow> do_AddBlameNodes env blameNodesBroadcast s);
                  st3 = missingShareSweep env (EDDSAKEYSIGNROUNDS env) EDDSAKEYSIGN threshold st2
              in (Inl ErrTssTimeOut, st3)))"

fun processKeySign_loop ::
  "session_env \<Rightarrow> nat \<Rightarrow> SignatureData list \<Rightarrow> session_state \<Rightarrow> SignatureData loop_event list \<Rightarrow>
     ((tss_error + SignatureData list) \<times> session_state) option" where
  "processKeySign_loop env reqNum signatures st [] = None"
| "processKeySign_loop env reqNum signatures st (ErrChanClosed # evs) = Some (Inl ErrChannelClosed, st)"
| "processKeySign_loop env reqNum signatures st (StopChanClosed # evs) = Some (Inl ErrExitSignal, st)"
| "processKeySign_loop env reqNum signatures st (TimeoutFired # evs) = Some (keySignTimeout env st)"
| "processKeySign_loop env reqNum signatures st (OutCh msg # evs) =
     (let st1 = st\<lparr>lastMsg := Some msg, effects := effects st @ [EffProcessOutCh msg TSSKeySignMsg]\<rparr> in
      case ProcessOutCh env msg TSSKeySignMsg of
        Some err \<Rightarrow> Some (Inl (ErrProcessOutCh err), st1)
      | None \<Rightarrow> processKeySign_loop env reqNum signatures st1 evs)"
| "processKeySign_loop env reqNum signatures st (EndCh msg # evs) =
     (let signatures1 = signatures @ [msg] in
      if length signatures1 = reqNum
      then Some (Inr signatures1, st\<lparr>effects := effects st @ [EffNotifyTaskDone, EffSaveAddressBook]\<rparr>)
      else processKeySign_loop env reqNum signatures1 st evs)"

definition processKeySign ::
  "session_env \<Rightarrow> nat \<Rightarrow> session_state \<Rightarrow> SignatureData loop_event list \<Rightarrow>
     ((tss_error + SignatureData list) \<times> session_state) option" where
  "processKeySign env reqNum st evs = processKeySign_loop env reqNum [] st evs"


text \<open>The two queries for evidence among the calls on the blame manager.\<close>

fun is_evidence_query :: "blame_call \<Rightarrow> bool" where
  "is_evidence_query (CallGetUnicastBlame r) = True"
| "is_evidence_query (CallGetBroadcastBlame r) = True"
| "is_evidence_query c = False"

section \<open>Key generation: \<open>processKeyGen\<close>\<close>

type_synonym ECPoint = "int \<times> int"

record LocalPartySaveData =
  EDDSAPub :: ECPoint
  save_Bytes :: "byte list"

record KeygenLocalState =
  PubKey :: string
  LocalData :: "byte list"
  ParticipantKeys :: "string list"
  LocalPartyKey :: string

text \<open>What the end of a key generation meets outside the engine.\<close>

record keygen_env =
  GetTssPubKeyEDDSA :: "ECPoint \<Rightarrow> string option"
  json_Marshal :: "LocalPartySaveData \<Rightarrow> byte list option"
  SaveLocalState :: "KeygenLocalState \<Rightarrow> bool"

text \<open>The timeout case of \<open>processKeyGen\<close>.\<close>

definition keyGenTimeout ::
  "session_env \<Rightarrow> session_state \<Rightarrow> (tss_error + ECPoint \<times> string) \<times> session_state" where
  "keyGenTimeout env st =
     (let failReason = (if FailReason (blame st) = [] then TssTimeout else FailReason (blame st))
      in case lastMsg st of
           None \<Rightarrow> (Inl ErrTimeoutBeforeSharedMessage, st)
         | Some m \<Rightarrow>
             (case do_GetUnicastBlame env (EDDSAKEYGEN2a env) st of
                (blameNodesUnicast, s0) \<Rightarrow>
                  (let threshold = fst (conversion_GetThreshold env (int (length (P2PPeers env)) + 1));
                       st1 = (if length blameNodesUnicast > 0 \<and> int (length blameNodesUnicast) \<le> threshold
                              then do_SetBlame env failReason blameNodesUnicast True ''KeyGenTimeout'' s0
                              else s0);
                       st2 = (case do_GetBroadcastBlame env (msg_Type m) st1 of
                                (blameNodesBroadcast, s) \<Rightarrow> do_AddBlameNodes env blameNodesBroadcast s);
                       st3 = missingShareSweep env (EDDSAKEYGENROUNDS env) EDDSAKEYGEN threshold st2
                   in (Inl ErrTssTimeOut, st3))))"

text \<open>The case of \<open>processKeyGen\<close> for the end channel.\<close>

definition keyGenEnd ::
  "keygen_env \<Rightarrow> KeygenLocalState \<Rightarrow> LocalPartySaveData \<Rightarrow> session_state \<Rightarrow>
     (tss_error + ECPoint \<times> string) \<times> session_state" where
  "keyGenEnd kenv keyGenLocalStateItem msg st =
     (let st1 = st\<lparr>effects := effects st @ [EffNotifyTaskDone]\<rparr> in
      case GetTssPubKeyEDDSA kenv (EDDSAPub msg) of
        None \<Rightarrow> (Inl ErrGetPubKey, st1)
      | Some strPubKey \<Rightarrow>
          (case json_Marshal kenv msg of
             None \<Rightarrow> (Inl ErrMarshalResult, st1)
           | Some marshaledMsg \<Rightarrow>
               if \<not> SaveLocalState kenv (keyGenLocalStateItem\<lparr>LocalData := marshaledMsg, PubKey := strPubKey\<rparr>)
               then (Inl ErrSaveLocalState, st1)
               else (Inr (EDDSAPub msg, strPubKey),
                     st1\<lparr>effects := effects st1 @ [EffSaveLocalState, EffSaveAddressBook]\<rparr>)))"

fun processKeyGen ::
  "session_env \<Rightarrow> keygen_env \<Rightarrow> KeygenLocalState \<Rightarrow> session_state \<Rightarrow>
     LocalPartySaveData loop_event list \<Rightarrow> ((tss_error + ECPoint \<times> string) \<times> session_state) option" where
  "processKeyGen env kenv item st [] = None"
| "processKeyGen env kenv item st (ErrChanClosed # evs) = Some (Inl ErrChannelClosed, st)"
| "processKeyGen env kenv item st (StopChanClosed # evs) = Some (Inl ErrExitSignal, st)"
| "processKeyGen env kenv item st (TimeoutFired # evs) = Some (keyGenTimeout env st)"
| "processKeyGen env kenv item st (OutCh msg # evs) =
     (let st1 = st\<lparr>lastMsg := Some msg, effects := effects st @ [EffProcessOutCh msg TSSKeyGenMsg]\<rparr> in
      case ProcessOutCh env msg TSSKeyGenMsg of
        Some err \<Rightarrow> Some (Inl (ErrProcessOutCh err), st1)
      | None \<Rightarrow> processKeyGen env kenv item st1 evs)"
| "processKeyGen env kenv item st (EndCh msg # evs) = Some (keyGenEnd kenv item msg st)"

section \<open>The standard library's \<open>sort.SliceStable\<close>\<close>

text \<open>
  \<open>SignMessage\<close> sorts with \<open>sort.SliceStable\<close>, which is not code of the repository: the
  functions below follow the Go standard library (\<open>sort/zsortfunc.go\<close>), where the slice is
  reached only through \<open>Less(i, j)\<close> and \<open>Swap(i, j)\<close>. Indices are natural numbers; the
  parameter \<open>lessFn\<close> is the caller's \<open>less\<close> on the elements at two indices.
\<close>

definition swap :: "'a list \<Rightarrow> nat \<Rightarrow> nat \<Rightarrow> 'a list" where
  "swap xs i j = xs[i := xs ! j, j := xs ! i]"

text \<open>
  \<open>insertionSort_func(data, a, b)\<close>: the inner loop moves the element at \<open>j\<close> down while it
  is less than its predecessor; the outer loop does so for \<open>i = a + 1, \<dots>, b - 1\<close>.
\<close>

function insertionSort_inner :: "('a \<Rightarrow> 'a \<Rightarrow> bool) \<Rightarrow> nat \<Rightarrow> nat \<Rightarrow> 'a list \<Rightarrow> 'a list" where
  "insertionSort_inner lessFn a j xs =
     (if j > a \<and> lessFn (xs ! j) (xs ! (j - 1))
      then insertionSort_inner lessFn a (j - 1) (swap xs j (j - 1))
      else xs)"
  by pat_completeness auto
termination by (relation "measure (\<lambda>(lessFn, a, j, xs). j)") auto

function insertionSort_outer :: "('a \<Rightarrow> 'a \<Rightarrow> bool) \<Rightarrow> nat \<Rightarrow> nat \<Rightarrow> nat \<Rightarrow> 'a list \<Rightarrow> 'a list" where
  "insertionSort_outer lessFn a b i xs =
     (if i < b then insertionSort_outer lessFn a b (i + 1) (insertionSort_inner lessFn a i xs) else xs)"
  by pat_completeness auto
termination by (relation "measure (\<lambda>(lessFn, a, b, i, xs). b - i)") auto

definition insertionSort_func :: "('a \<Rightarrow> 'a \<Rightarrow> bool) \<Rightarrow> nat \<Rightarrow> nat \<Rightarrow> 'a list \<Rightarrow> 'a list" where
  "insertionSort_func lessFn a b xs = insertionSort_outer lessFn a b (a + 1) xs"

text \<open>\<open>swapRange_func(data, a, b, n)\<close> swaps the \<open>n\<close> elements from \<open>a\<close> with those from \<open>b\<close>.\<close>

function swapRange_loop :: "nat \<Rightarrow> nat \<Rightarrow> nat \<Rightarrow> nat \<Rightarrow> 'a list \<Rightarrow> 'a list" where
  "swapRange_loop a b n i xs =
     (if i < n then swapRange_loop a b n (i + 1) (swap xs (a + i) (b + i)) else xs)"
  by pat_completeness auto
termination by (relation "measure (\<lambda>(a, b, n, i, xs). n - i)") auto

definition swapRange_func :: "nat \<Rightarrow> nat \<Rightarrow> nat \<Rightarrow> 'a list \<Rightarrow> 'a list" where
  "swapRange_func a b n xs = swapRange_loop a b n 0 xs"

text \<open>
  \<open>rotate_func(data, a, m, b)\<close> exchanges the blocks \<open>data[a:m]\<close> and \<open>data[m:b]\<close>. Its loop
  \<open>for i != j\<close> subtracts the smaller of \<open>i\<close> and \<open>j\<close> from the larger, and does not end
  when exactly one of them is 0: a run that does not end is \<open>None\<close>.
\<close>

partial_function (option) rotate_loop :: "nat \<Rightarrow> nat \<Rightarrow> nat \<Rightarrow> 'a list \<Rightarrow> (nat \<times> 'a list) option" where
  [code]: "rotate_loop m i j xs =
     (if i \<noteq> j then
        (if i > j then rotate_loop m (i - j) j (swapRange_func (m - i) m j xs)
         else rotate_loop m i (j - i) (swapRange_func (m - i) (m + j - i) i xs))
      else Some (i, xs))"

definition rotate_func :: "nat \<Rightarrow> nat \<Rightarrow> nat \<Rightarrow> 'a list \<Rightarrow> 'a list option" where
  "rotate_func a m b xs =
     (case rotate_loop m (m - a) (b - m) xs of
        None \<Rightarrow> None
      | Some (i, xs') \<Rightarrow> Some (swapRange_func (m - i) m i xs'))"

text \<open>
  The three binary searches of \<open>symMerge_func\<close> are one loop,
  \<open>for i < j { h := int(uint(i+j) >> 1); if \<dots> { i = h + 1 } else { j = h } }\<close>,
  with three tests; the test is the parameter.
\<close>

function binary_search :: "(nat \<Rightarrow> bool) \<Rightarrow> nat \<Rightarrow> nat \<Rightarrow> nat" where
  "binary_search go_up i j =
     (if i < j then
        (let h = (i + j) div 2 in
         if go_up h then binary_search go_up (h + 1) j else binary_search go_up i h)
      else i)"
  by pat_completeness auto
termination by (relation "measure (\<lambda>(go_up, i, j). j - i)") auto

text \<open>
  The two loops of swaps by which \<open>symMerge_func\<close> inserts a single element:
  \<open>for k := a; k < i-1; k++ { Swap(k, k+1) }\<close> and \<open>for k := m; k > i; k-- { Swap(k, k-1) }\<close>.
\<close>

function shift_up :: "nat \<Rightarrow> nat \<Rightarrow> 'a list \<Rightarrow> 'a list" where
  "shift_up k stop xs = (if k < stop then shift_up (k + 1) stop (swap xs k (k + 1)) else xs)"
  by pat_completeness auto
termination by (relation "measure (\<lambda>(k, stop, xs). stop - k)") auto

function shift_down :: "nat \<Rightarrow> nat \<Rightarrow> 'a list \<Rightarrow> 'a list" where
  "shift_down k i xs = (if k > i then shift_down (k - 1) i (swap xs k (k - 1)) else xs)"
  by pat_completeness auto
termination by (relation "measure (\<lambda>(k, i, xs). k)") auto

text \<open>
  \<open>symMerge_func(data, a, m, b)\<close> merges the sorted \<open>data[a:m]\<close> and \<open>data[m:b]\<close>: by
  insertion when one of them has a single element, and otherwise by a search for the point
  \<open>start\<close> at which to rotate, followed by the merge of each half.
\<close>

definition symMerge_first :: "('a \<Rightarrow> 'a \<Rightarrow> bool) \<Rightarrow> nat \<Rightarrow> nat \<Rightarrow> nat \<Rightarrow> 'a list \<Rightarrow> 'a list" where
  "symMerge_first lessFn a m b xs = (let i = binary_search (\<lambda>h. lessFn (xs ! h) (xs ! a)) m b in shift_up a (i - 1) xs)"

definition symMerge_last :: "('a \<Rightarrow> 'a \<Rightarrow> bool) \<Rightarrow> nat \<Rightarrow> nat \<Rightarrow> nat \<Rightarrow> 'a list \<Rightarrow> 'a list" where
  "symMerge_last lessFn a m b xs = (let i = binary_search (\<lambda>h. \<not> lessFn (xs ! m) (xs ! h)) a m in shift_down m i xs)"

definition symMerge_start :: "('a \<Rightarrow> 'a \<Rightarrow> bool) \<Rightarrow> nat \<Rightarrow> nat \<Rightarrow> nat \<Rightarrow> 'a list \<Rightarrow> nat" where
  "symMerge_start lessFn a m b xs =
     (let mid = (a + b) div 2;
          n = mid + m;
          start = (if m > mid then n - b else a);
          r = (if m > mid then mid else m);
          p = n - 1
      in binary_search (\<lambda>c. \<not> lessFn (xs ! (p - c)) (xs ! c)) start r)"

partial_function (option) symMerge_func ::
  "('a \<Rightarrow> 'a \<Rightarrow> bool) \<Rightarrow> nat \<Rightarrow> nat \<Rightarrow> nat \<Rightarrow> 'a list \<Rightarrow> 'a list option" where
  [code]: "symMerge_func lessFn a m b xs =
     (if m - a = 1 then Some (symMerge_first lessFn a m b xs)
      else if b - m = 1 then Some (symMerge_last lessFn a m b xs)
      else
        (let mid = (a + b) div 2;
             n = mid + m;
             start = symMerge_start lessFn a m b xs;
             end = n - start
         in Option.bind (if start < m \<and> m < end then rotate_func start m end xs else Some xs)
              (\<lambda>xs1. Option.bind
                 (if a < start \<and> start < mid then symMerge_func lessFn a start mid xs1 else Some xs1)
                 (\<lambda>xs2. if mid < end \<and> end < b then symMerge_func lessFn mid end b xs2 else Some xs2))))"

text \<open>
  \<open>stable_func(data, n)\<close>: insertion sort on blocks of 20, then passes of \<open>symMerge_func\<close>
  over pairs of blocks, the block size doubling after each pass. Each block loop returns the
  start \<open>a\<close> of the block it stopped at, for the call that follows it on the shorter last
  block. The loops over pairs of blocks take the block size as it stands; with a block size
  of 0, which \<open>stable_func\<close> never has, they would not end.
\<close>

function insertion_blocks ::
  "('a \<Rightarrow> 'a \<Rightarrow> bool) \<Rightarrow> nat \<Rightarrow> nat \<Rightarrow> nat \<Rightarrow> 'a list \<Rightarrow> nat \<times> 'a list" where
  "insertion_blocks lessFn n a b xs =
     (if b \<le> n
      then insertion_blocks lessFn n b (b + 20) (insertionSort_func lessFn a b xs)
      else (a, xs))"
  by pat_completeness auto
termination by (relation "measure (\<lambda>(lessFn, n, a, b, xs). Suc n - b)") auto

partial_function (option) merge_blocks ::
  "('a \<Rightarrow> 'a \<Rightarrow> bool) \<Rightarrow> nat \<Rightarrow> nat \<Rightarrow> nat \<Rightarrow> nat \<Rightarrow> 'a list \<Rightarrow> (nat \<times> 'a list) option" where
  [code]: "merge_blocks lessFn n blockSize a b xs =
     (if b \<le> n
      then Option.bind (symMerge_func lessFn a (a + blockSize) b xs)
             (\<lambda>xs1. merge_blocks lessFn n blockSize b (b + 2 * blockSize) xs1)
      else Some (a, xs))"

partial_function (option) merge_passes ::
  "('a \<Rightarrow> 'a \<Rightarrow> bool) \<Rightarrow> nat \<Rightarrow> nat \<Rightarrow> 'a list \<Rightarrow> 'a list option" where
  [code]: "merge_passes lessFn n blockSize xs =
     (if blockSize < n then
        Option.bind (merge_blocks lessFn n blockSize 0 (2 * blockSize) xs)
          (\<lambda>(a, xs1). Option.bind
             (if a + blockSize < n then symMerge_func lessFn a (a + blockSize) n xs1 else Some xs1)
             (\<lambda>xs2. merge_passes lessFn n (blockSize * 2) xs2))
      else Some xs)"

definition stable_func :: "('a \<Rightarrow> 'a \<Rightarrow> bool) \<Rightarrow> nat \<Rightarrow> 'a list \<Rightarrow> 'a list option" where
  "stable_func lessFn n xs =
     (let blockSize = 20 in
      case insertion_blocks lessFn n 0 blockSize xs of
        (a, xs1) \<Rightarrow> merge_passes lessFn n blockSize (insertionSort_func lessFn a n xs1))"

definition SliceStable :: "('a \<Rightarrow> 'a \<Rightarrow> bool) \<Rightarrow> 'a list \<Rightarrow> 'a list option" where
  "SliceStable lessFn xs = stable_func lessFn (length xs) xs"

declare insertionSort_inner.simps [simp del] insertionSort_outer.simps [simp del]
  swapRange_loop.simps [simp del] binary_search.simps [simp del] shift_up.simps [simp del]
  shift_down.simps [simp del] insertion_blocks.simps [simp del]

text \<open>
  What the proofs ask of \<open>lessFn\<close>, read as "may stand before": any two elements are
  related one way or the other, and the relation is transitive. It need not be strict.
\<close>

definition total_preorder :: "('a \<Rightarrow> 'a \<Rightarrow> bool) \<Rightarrow> bool" where
  "total_preorder lessFn \<longleftrightarrow>
     (\<forall>x y. lessFn x y \<or> lessFn y x) \<and> (\<forall>x y z. lessFn x y \<longrightarrow> lessFn y z \<longrightarrow> lessFn x z)"

text \<open>Every block of \<open>blockSize\<close> consecutive elements (the last may be shorter) is sorted.\<close>

definition runs :: "('a \<Rightarrow> 'a \<Rightarrow> bool) \<Rightarrow> nat \<Rightarrow> 'a list \<Rightarrow> bool" where
  "runs lessFn blockSize xs \<longleftrightarrow> (\<forall>k. sorted_wrt lessFn (take blockSize (drop (k * blockSize) xs)))"

section \<open>Key signing: \<open>SignMessage\<close>\<close>

text \<open>\<open>big.Int.SetBytes\<close> reads a big-endian unsigned integer; \<open>Cmp\<close> compares two integers.\<close>

definition SetBytes :: "byte list \<Rightarrow> int" where
  "SetBytes buf = foldl (\<lambda>acc b. acc * 256 + uint b) 0 buf"

definition Cmp :: "int \<Rightarrow> int \<Rightarrow> int" where
  "Cmp x y = (if x < y then - 1 else if x = y then 0 else 1)"

text \<open>The function that \<open>SignMessage\<close> hands to \<open>sort.SliceStable\<close>, on two elements.\<close>

definition lessByM :: "SignatureData \<Rightarrow> SignatureData \<Rightarrow> bool" where
  "lessByM x y =
     (let a = SetBytes (sig_M x);
          b = SetBytes (sig_M y)
      in if Cmp a b = - 1 then False else True)"

text \<open>
  Three functions of the standard library by which \<open>SignMessage\<close> names a party:
  \<open>big.Int.Bytes\<close>, the big-endian bytes of the absolute value, none for 0;
  \<open>hex.EncodeToString\<close>, two digits \<open>hextable[v>>4]\<close> and \<open>hextable[v&0x0f]\<close> for each byte
  \<open>v\<close>; and \<open>strconv.Itoa\<close>, here on the index of a \<open>range\<close> loop, which is never negative.
\<close>

function nat_Bytes :: "nat \<Rightarrow> byte list" where
  "nat_Bytes n = (if n = 0 then [] else nat_Bytes (n div 256) @ [of_nat (n mod 256)])"
  by pat_completeness auto
termination by (relation "measure id") auto

definition big_Bytes :: "int \<Rightarrow> byte list" where
  "big_Bytes x = nat_Bytes (nat \<bar>x\<bar>)"

definition hextable :: string where
  "hextable = ''0123456789abcdef''"

definition hex_EncodeToString :: "byte list \<Rightarrow> string" where
  "hex_EncodeToString src =
     concat (map (\<lambda>v. [hextable ! (unat v div 16), hextable ! (unat v mod 16)]) src)"

definition digits :: string where
  "digits = ''0123456789''"

function strconv_Itoa :: "nat \<Rightarrow> string" where
  "strconv_Itoa n =
     (if n < 10 then [digits ! n] else strconv_Itoa (n div 10) @ [digits ! (n mod 10)])"
  by pat_completeness auto
termination by (relation "measure id") auto

declare nat_Bytes.simps [simp del] strconv_Itoa.simps [simp del]

record PartyID =
  party_Id :: string
  party_Moniker :: string

record LocalParty =
  party_msg :: int
  party_ID :: PartyID
  party_threshold :: int
  party_data :: LocalPartySaveData

text \<open>
  What \<open>SignMessage\<close> calls outside the source files at hand, and \<open>json.Unmarshal\<close> on the
  stored key-share. The two calls of \<open>SetupIDMaps\<close> are given by whether each returns an error.
\<close>

record signing_env =
  GetParties :: "string list \<Rightarrow> string \<Rightarrow> (PartyID list \<times> PartyID) option"
  Contains :: "PartyID list \<Rightarrow> PartyID \<Rightarrow> bool"
  MsgToHashInt :: "byte list \<Rightarrow> Algo \<Rightarrow> int option"
  json_Unmarshal :: "byte list \<Rightarrow> LocalPartySaveData option"
  SetupIDMaps_err1 :: bool
  SetupIDMaps_err2 :: bool

datatype sign_error =
    ErrFormKeySignParty
  | ErrGetThresholdFailed
  | ErrMsgToHashInt
  | ErrCreateParties
  | ErrUnmarshalLocalData
  | ErrProcessKeySign tss_error

text \<open>
  The loop of \<open>SignMessage\<close> over the messages: one party for each, stored under the moniker
  made of the hash of the message and its index.
\<close>

fun newLocalParties ::
  "signing_env \<Rightarrow> string list \<Rightarrow> KeygenLocalState \<Rightarrow> int \<Rightarrow> nat \<Rightarrow> byte list list \<Rightarrow>
     (string \<rightharpoonup> LocalParty) \<Rightarrow> sign_error + (string \<rightharpoonup> LocalParty)" where
  "newLocalParties env parties localStateItem threshold i [] keySignPartyMap = Inr keySignPartyMap"
| "newLocalParties env parties localStateItem threshold i (val # vals) keySignPartyMap =
     (case MsgToHashInt env val EDDSAKEYSIGN of
        None \<Rightarrow> Inl ErrMsgToHashInt
      | Some m \<Rightarrow>
          (let moniker = hex_EncodeToString (big_Bytes m) @ '':'' @ strconv_Itoa i in
           case GetParties env parties (LocalPartyKey localStateItem) of
             None \<Rightarrow> Inl ErrCreateParties
           | Some (partiesID, eachLocalPartyID) \<Rightarrow>
               (case json_Unmarshal env (LocalData localStateItem) of
                  None \<Rightarrow> Inl ErrUnmarshalLocalData
                | Some localData \<Rightarrow>
                    newLocalParties env parties localStateItem threshold (i + 1) vals
                      (keySignPartyMap(moniker \<mapsto>
                         \<lparr>party_msg = m,
                          party_ID = eachLocalPartyID\<lparr>party_Moniker := moniker\<rparr>,
                          party_threshold = threshold,
                          party_data = localData\<rparr>)))))"

text \<open>
  \<open>SignMessage\<close>. Two of its returns are \<open>nil, nil\<close>, the empty list here: when the local
  party is not among the signers, and when an id map cannot be set up (the \<open>err\<close> returned
  there is the one of \<open>GetThreshold\<close>, which is nil at that point). \<open>None\<close> is a run of
  \<open>processKeySign\<close> still under way, or a sort that does not return.
\<close>

definition SignMessage ::
  "signing_env \<Rightarrow> session_env \<Rightarrow> byte list list \<Rightarrow> KeygenLocalState \<Rightarrow> string list \<Rightarrow>
     session_state \<Rightarrow> SignatureData loop_event list \<Rightarrow>
     ((sign_error + SignatureData list) \<times> session_state) option" where
  "SignMessage env senv msgsToSign localStateItem parties st evs =
     (case GetParties env parties (LocalPartyKey localStateItem) of
        None \<Rightarrow> Some (Inl ErrFormKeySignParty, st)
      | Some (partiesID, localPartyID) \<Rightarrow>
          if \<not> Contains env partiesID localPartyID then Some (Inr [], st)
          else
            (case conversion_GetThreshold senv (int (length (ParticipantKeys localStateItem))) of
               (threshold, True) \<Rightarrow> Some (Inl ErrGetThresholdFailed, st)
             | (threshold, False) \<Rightarrow>
                 (case newLocalParties env parties localStateItem threshold 0 msgsToSign Map.empty of
                    Inl e \<Rightarrow> Some (Inl e, st)
                  | Inr keySignPartyMap \<Rightarrow>
                      if SetupIDMaps_err1 env \<or> SetupIDMaps_err2 env then Some (Inr [], st)
                      else
                        (case processKeySign senv (length msgsToSign) st evs of
                           None \<Rightarrow> None
                         | Some (Inl e, st') \<Rightarrow> Some (Inl (ErrProcessKeySign e), st')
                         | Some (Inr results, st') \<Rightarrow>
                             (case SliceStable lessByM results of
                                None \<Rightarrow> None
                              | Some sorted_results \<Rightarrow> Some (Inr sorted_results, st'))))))"

section \<open>The orchestrator: \<open>KeySign\<close>\<close>

text \<open>
  Modelled from the spec: the helper \<open>GetThreshold\<close> is outside the source files at hand.
  The spec gives \<open>threshold = \<lceil>(2/3)\<cdot>n\<rceil> - 1\<close>; the helper returns an error beside the value,
  for which the spec names no case.
\<close>

definition GetThreshold :: "int \<Rightarrow> int option" where
  "GetThreshold n = Some (\<lceil>2 / 3 * real_of_int n\<rceil> - 1)"

record Request =
  PoolPubKey :: string
  Messages :: "string list"
  SignerPubKeys :: "string list"

record Signature =
  signature_Msg :: string
  signature_R :: string
  signature_S :: string

text \<open>
  Modelled from the spec: the status of a response, the reason tags of a verdict and the
  constructors \<open>NewBlame\<close> and \<open>NoBlame\<close> are outside the source files at hand.
\<close>

datatype Status = NA | Success | Fail

definition BlameTssCoordinator :: string where
  "BlameTssCoordinator = ''BlameTssCoordinator''"

definition BlameTssSync :: string where
  "BlameTssSync = ''TssSyncFail''"

definition NewBlame :: "string \<Rightarrow> Node list \<Rightarrow> Blame" where
  "NewBlame reason nodes = \<lparr>FailReason = reason, IsUnicast = False, BlameNodes = nodes\<rparr>"

definition NoBlame :: Blame where
  "NoBlame = \<lparr>FailReason = [], IsUnicast = False, BlameNodes = []\<rparr>"

record Response =
  resp_Signatures :: "Signature list"
  resp_Status :: Status
  resp_Blame :: Blame

definition emptyResp :: Response where
  "emptyResp = \<lparr>resp_Signatures = [], resp_Status = NA, resp_Blame = NoBlame\<rparr>"

definition NewResponse :: "string \<Rightarrow> Signature list \<Rightarrow> Status \<Rightarrow> Blame \<Rightarrow> Response" where
  "NewResponse msgID signatures status bl =
     \<lparr>resp_Signatures = signatures, resp_Status = status, resp_Blame = bl\<rparr>"

datatype JoinPartyResponse_Type = JoinPartyResponse_Success | JoinPartyResponse_Timeout

record JoinPartyResponse =
  jp_Type :: JoinPartyResponse_Type
  jp_PeerIDs :: "string list"

text \<open>
  What \<open>KeySign\<close> calls outside the source files at hand. A call that returns an error beside
  a value that is used afterwards gives the pair; one whose value is dropped on error gives
  \<open>None\<close> for the error.
\<close>

record server_env =
  requestToMsgId :: "Request \<Rightarrow> string option"
  GetLocalState :: "string \<Rightarrow> KeygenLocalState option"
  base64_DecodeString :: "string \<Rightarrow> byte list option"
  base64_EncodeToString :: "byte list \<Rightarrow> string"
  common_GetThreshold :: "int \<Rightarrow> int option"
  localNodePubKey :: string
  WaitForSignature :: "string \<Rightarrow> string \<Rightarrow> SignatureData list option"
  GetPeerIDs :: "string list \<Rightarrow> peer_ID list option"
  joinParty :: "string \<Rightarrow> string \<Rightarrow> string list \<Rightarrow> JoinPartyResponse option \<times> peer_ID \<times> bool"
  GetPubKeyFromPeerID :: "peer_ID \<Rightarrow> string \<times> bool"
  getBlamePeers :: "string list \<Rightarrow> string list \<Rightarrow> string \<Rightarrow> Blame \<times> bool"
  Blame_AddBlameNodes :: "Node list \<Rightarrow> Blame \<Rightarrow> Blame"
  keysign_SignMessage :: "byte list list \<Rightarrow> KeygenLocalState \<Rightarrow> string list \<Rightarrow> SignatureData list option"
  BlamePeers :: Blame
  BroadcastSignature :: "string \<Rightarrow> SignatureData list \<Rightarrow> peer_ID list \<Rightarrow> bool"

datatype keysign_error =
    ErrRequestToMsgId
  | ErrGetLocalState
  | ErrDecodeMessage
  | ErrEmptySignerPubKeys
  | ErrGetThreshold
  | ErrNotEnoughSigners
  | ErrGetSignature
  | ErrKeysignFailed
  | ErrConvertPubKeys
  | ErrBroadcastSignature

text \<open>How a call of \<open>KeySign\<close> ends: with a response and an error (or nil), or in a panic.\<close>

datatype keysign_exit = Returned Response "keysign_error option" | Panicked

datatype server_effect =
    EffSetSubscribe THORChainTSSMessageType string
  | EffCancelSubscribe THORChainTSSMessageType string
  | EffWaitForSignature string string
  | EffJoinParty string string "string list"
  | EffBroadcastKeysignFailure string "peer_ID list"
  | EffSignMessage "byte list list" "string list"
  | EffFailedKeySign
  | EffSucKeySign
  | EffBroadcastSignature string

definition isPartOfKeysignParty :: "server_env \<Rightarrow> string list \<Rightarrow> bool" where
  "isPartOfKeysignParty env parties = list_ex (\<lambda>item. localNodePubKey env = item) parties"

definition batchSignatures :: "server_env \<Rightarrow> string \<Rightarrow> SignatureData list \<Rightarrow> Response" where
  "batchSignatures env msgID sigs =
     NewResponse msgID
       (map (\<lambda>sig. \<lparr>signature_Msg = base64_EncodeToString env (sig_M sig),
                     signature_R = base64_EncodeToString env (sig_R sig),
                     signature_S = base64_EncodeToString env (sig_S sig)\<rparr>) sigs)
       Success NoBlame"

text \<open>The loop of \<open>KeySign\<close> that decodes the messages: the first that fails ends it.\<close>

fun decodeMessages :: "server_env \<Rightarrow> string list \<Rightarrow> byte list list option" where
  "decodeMessages env [] = Some []"
| "decodeMessages env (val # vals) =
     (case base64_DecodeString env val of
        None \<Rightarrow> None
      | Some msgToSign \<Rightarrow> map_option ((#) msgToSign) (decodeMessages env vals))"

text \<open>\<open>strings.Join\<close>.\<close>

fun strings_Join :: "string list \<Rightarrow> string \<Rightarrow> string" where
  "strings_Join [] sep = []"
| "strings_Join [x] sep = x"
| "strings_Join (x # xs) sep = x @ sep @ strings_Join xs sep"

text \<open>\<open>KeySign\<close> from the call of \<open>joinParty\<close> on.\<close>

definition KeySign_session ::
  "server_env \<Rightarrow> Request \<Rightarrow> string \<Rightarrow> KeygenLocalState \<Rightarrow> byte list list \<Rightarrow> peer_ID list \<Rightarrow>
     keysign_exit \<times> server_effect list" where
  "KeySign_session env req msgID localStateItem msgsToSign signers =
     (let msgToSignID = strings_Join (sort (Messages req)) '','' in
      case joinParty env msgID msgToSignID (SignerPubKeys req) of
        (result, leaderPeerID, err) \<Rightarrow>
          (let joined = [EffJoinParty msgID msgToSignID (SignerPubKeys req)] in
           if err then
             (let pKey = fst (GetPubKeyFromPeerID env leaderPeerID) in
              (Returned \<lparr>resp_Signatures = [], resp_Status = Fail,
                         resp_Blame = NewBlame BlameTssCoordinator [pKey]\<rparr> None,
               joined @ [EffBroadcastKeysignFailure msgID signers]))
           else
             (case result of
                None \<Rightarrow> (Panicked, joined)
              | Some res \<Rightarrow>
                  if jp_Type res \<noteq> JoinPartyResponse_Success then
                    (let pKey = fst (GetPubKeyFromPeerID env leaderPeerID);
                         bl = fst (getBlamePeers env (SignerPubKeys req) (jp_PeerIDs res) BlameTssSync)
                     in (Returned \<lparr>resp_Signatures = [], resp_Status = Fail,
                                   resp_Blame = Blame_AddBlameNodes env [pKey] bl\<rparr> None,
                         joined @ [EffBroadcastKeysignFailure msgID signers]))
                  else
                    (let signing = joined @ [EffSignMessage msgsToSign (SignerPubKeys req)] in
                     case keysign_SignMessage env msgsToSign localStateItem (SignerPubKeys req) of
                       None \<Rightarrow>
                         (Returned \<lparr>resp_Signatures = [], resp_Status = Fail,
                                    resp_Blame = BlamePeers env\<rparr> None,
                          signing @ [EffFailedKeySign, EffBroadcastKeysignFailure msgID signers])
                     | Some signaturesData \<Rightarrow>
                         if \<not> BroadcastSignature env msgID signaturesData signers
                         then (Returned emptyResp (Some ErrBroadcastSignature),
                               signing @ [EffSucKeySign, EffBroadcastSignature msgID])
                         else (Returned (batchSignatures env msgID signaturesData) None,
                               signing @ [EffSucKeySign, EffBroadcastSignature msgID])))))"

text \<open>\<open>KeySign\<close> between the two subscriptions and the two deferred cancellations.\<close>

definition KeySign_checked ::
  "server_env \<Rightarrow> Request \<Rightarrow> string \<Rightarrow> keysign_exit \<times> server_effect list" where
  "KeySign_checked env req msgID =
     (case GetLocalState env (PoolPubKey req) of
        None \<Rightarrow> (Returned emptyResp (Some ErrGetLocalState), [])
      | Some localStateItem \<Rightarrow>
          (case decodeMessages env (Messages req) of
             None \<Rightarrow> (Returned emptyResp (Some ErrDecodeMessage), [])
           | Some msgsToSign \<Rightarrow>
               if length (SignerPubKeys req) = 0
               then (Returned emptyResp (Some ErrEmptySignerPubKeys), [])
               else
                 (case common_GetThreshold env (int (length (ParticipantKeys localStateItem))) of
                    None \<Rightarrow> (Returned emptyResp (Some ErrGetThreshold), [])
                  | Some threshold \<Rightarrow>
                      if int (length (SignerPubKeys req)) \<le> threshold
                      then (Returned emptyResp (Some ErrNotEnoughSigners), [])
                      else if \<not> isPartOfKeysignParty env (SignerPubKeys req) then
                        (case WaitForSignature env msgID (PoolPubKey req) of
                           None \<Rightarrow> (Returned emptyResp (Some ErrGetSignature),
                                     [EffWaitForSignature msgID (PoolPubKey req)])
                         | Some data \<Rightarrow>
                             if length data = 0
                             then (Returned emptyResp (Some ErrKeysignFailed),
                                   [EffWaitForSignature msgID (PoolPubKey req)])
                             else (Returned (batchSignatures env msgID data) None,
                                   [EffWaitForSignature msgID (PoolPubKey req)]))
                      else
                        (case GetPeerIDs env (ParticipantKeys localStateItem) of
                           None \<Rightarrow> (Returned emptyResp (Some ErrConvertPubKeys), [])
                         | Some signers \<Rightarrow>
                             KeySign_session env req msgID localStateItem msgsToSign signers))))"

definition KeySign :: "server_env \<Rightarrow> Request \<Rightarrow> keysign_exit \<times> server_effect list" where
  "KeySign env req =
     (case requestToMsgId env req of
        None \<Rightarrow> (Returned emptyResp (Some ErrRequestToMsgId), [])
      | Some msgID \<Rightarrow>
          (case KeySign_checked env req msgID of
             (exit, effs) \<Rightarrow>
               (exit,
                [EffSetSubscribe TSSKeySignMsg msgID, EffSetSubscribe TSSKeySignVerMsg msgID]
                @ effs @
                [EffCancelSubscribe TSSKeySignVerMsg msgID, EffCancelSubscribe TSSKeySignMsg msgID])))"

text \<open>The effects by which a party is formed, a signature made or waited for, or blame sent out.\<close>

fun is_session_effect :: "server_effect \<Rightarrow> bool" where
  "is_session_effect (EffSetSubscribe t m) = False"
| "is_session_effect (EffCancelSubscribe t m) = False"
| "is_session_effect e = True"

section \<open>Concrete inputs\<close>

text \<open>A host \<open>me\<close> with one subscriber, on channel 5, for key-sign session \<open>m1\<close>.\<close>

definition comm0 :: Communication where
  "comm0 = \<lparr>rendezvous = ''Asgard'', host_ID = ''me'',
            subscribers = [TSSKeySignMsg \<mapsto> Some [''m1'' \<mapsto> 5]]\<rparr>"

text \<open>
  A reader that is never stopped, whose deadlines never fail, and that takes the first byte of
  a payload as the session: 1 is \<open>m1\<close> of type \<open>TSSKeySignMsg\<close>, anything else does not parse.
\<close>

definition reader0 :: reader_env where
  "reader0 = \<lparr>remote_peer = ''peerA'', stop_closed = (\<lambda>i. False),
              header_deadline_fails = (\<lambda>i. False), body_deadline_fails = (\<lambda>i. False),
              unmarshal = (\<lambda>b. if b \<noteq> [] \<and> hd b = 1
                                then Some \<lparr>MessageType = TSSKeySignMsg, MsgID = ''m1'', WrappedPayload = tl b\<rparr>
                                else None)\<rparr>"

text \<open>A network where discovery finds \<open>peerB\<close> and the host, and every stream takes every byte.\<close>

definition net0 :: network where
  "net0 = \<lparr>FindPeers_fails = False, peerChan = [Found ''peerB'', Found ''me''],
           NewStream = (\<lambda>p. Some \<lparr>header_deadline_ok = True, header_write = Some 4,
                                     body_deadline_ok = True, body_write = Some 3\<rparr>)\<rparr>"

text \<open>
  A session of three nodes in which \<open>nodeC\<close> has sent no unicast share of the second round,
  and a state whose last outbound message is the unicast message of that round.
\<close>

definition senv0 :: session_env where
  "senv0 = \<lparr>GetUnicastBlame = (\<lambda>r. (if r = ''SignRound2'' then [''nodeC''] else [], False)),
            GetBroadcastBlame = (\<lambda>r. ([], False)),
            TssMissingShareBlame = (\<lambda>n a. ([], False, False)),
            SetBlame = (\<lambda>reason nodes u tag b. \<lparr>FailReason = reason, IsUnicast = u, BlameNodes = nodes\<rparr>),
            AddBlameNodes = (\<lambda>nodes b. b\<lparr>BlameNodes := BlameNodes b @ nodes\<rparr>),
            GetPreviousKeySignUicast = (\<lambda>r. ''SignRound1''),
            conversion_GetThreshold = (\<lambda>n. ((2 * n + 2) div 3 - 1, False)),
            P2PPeers = [''peerB'', ''peerC''],
            ProcessOutCh = (\<lambda>m t. None),
            EDDSAKEYGEN2a = ''KGRound2Message1'',
            EDDSAKEYGENROUNDS = 3,
            EDDSAKEYSIGNROUNDS = 3\<rparr>"

definition state0 :: session_state where
  "state0 = \<lparr>lastMsg = None, blame = \<lparr>FailReason = [], IsUnicast = False, BlameNodes = []\<rparr>,
             calls = [], effects = []\<rparr>"

definition round2_unicast :: tss_Message where
  "round2_unicast = \<lparr>msg_Type = ''SignRound2'', msg_IsBroadcast = False, msg_Bytes = [2]\<rparr>"

definition sig1 :: SignatureData where
  "sig1 = \<lparr>sig_M = [1], sig_R = [10], sig_S = [11], sig_Signature = [10, 11]\<rparr>"

definition sig2 :: SignatureData where
  "sig2 = \<lparr>sig_M = [2], sig_R = [20], sig_S = [21], sig_Signature = [20, 21]\<rparr>"

definition kenv0 :: keygen_env where
  "kenv0 = \<lparr>GetTssPubKeyEDDSA = (\<lambda>p. Some ''pub''), json_Marshal = (\<lambda>d. Some (save_Bytes d)),
            SaveLocalState = (\<lambda>s. True)\<rparr>"

definition item0 :: KeygenLocalState where
  "item0 = \<lparr>PubKey = [], LocalData = [], ParticipantKeys = [''nodeA'', ''nodeB'', ''nodeC''],
            LocalPartyKey = ''nodeA''\<rparr>"

text \<open>
  A node \<open>nodeA\<close> holding a share of the key \<open>pool\<close> generated by three nodes, at a time when
  the party-formation led by \<open>peerB\<close> fails.
\<close>

definition srv0 :: server_env where
  "srv0 = \<lparr>requestToMsgId = (\<lambda>r. Some ''msg-1''),
           GetLocalState = (\<lambda>k. if k = ''pool'' then Some item0 else None),
           base64_DecodeString = (\<lambda>s. if s = ''AQ=='' then Some [1] else None),
           base64_EncodeToString = (\<lambda>b. ''AQ==''),
           common_GetThreshold = GetThreshold,
           localNodePubKey = ''nodeA'',
           WaitForSignature = (\<lambda>i k. None),
           GetPeerIDs = (\<lambda>ks. Some [''peerA'', ''peerB'', ''peerC'']),
           joinParty = (\<lambda>i m ks. (None, ''peerB'', True)),
           GetPubKeyFromPeerID = (\<lambda>p. (if p = ''peerB'' then ''nodeB'' else [], p \<noteq> ''peerB'')),
           getBlamePeers = (\<lambda>ks ps r. (NoBlame, False)),
           Blame_AddBlameNodes = (\<lambda>nodes b. b\<lparr>BlameNodes := BlameNodes b @ nodes\<rparr>),
           keysign_SignMessage = (\<lambda>ms st ks. None),
           BlamePeers = NoBlame,
           BroadcastSignature = (\<lambda>i sigs ps. True)\<rparr>"

definition req0 :: "string list \<Rightarrow> Request" where
  "req0 signers = \<lparr>PoolPubKey = ''pool'', Messages = [''AQ==''], SignerPubKeys = signers\<rparr>"

text \<open>
  A key-share of \<open>nodeA\<close> as it is stored, the JSON text
  \<open>{"Xi":5,"ShareID":1,"Ks":[1,2,3]}\<close>, for the key generated by three nodes.
\<close>

definition keyshare0 :: "byte list" where
  "keyshare0 = [0x7B, 0x22, 0x58, 0x69, 0x22, 0x3A, 0x35, 0x2C,
                0x22, 0x53, 0x68, 0x61, 0x72, 0x65, 0x49, 0x44, 0x22, 0x3A, 0x31, 0x2C,
                0x22, 0x4B, 0x73, 0x22, 0x3A, 0x5B, 0x31, 0x2C, 0x32, 0x2C, 0x33, 0x5D, 0x7D]"

definition item1 :: KeygenLocalState where
  "item1 = \<lparr>PubKey = ''pool'', LocalData = keyshare0,
            ParticipantKeys = [''nodeA'', ''nodeB'', ''nodeC''], LocalPartyKey = ''nodeA''\<rparr>"

text \<open>
  The signing side of a node. A party is identified by its key, and the node is in the
  signing party when its key is among the signers. The hash of a message is its first 32
  bytes read as a number, less the 3 lowest bits when there are 32 of them. Of the texts at
  hand \<open>json.Unmarshal\<close> parses the key-share \<open>keyshare0\<close>; every other text, the empty one
  among them, is taken as malformed. Both id maps are set up.
\<close>

definition sign0 :: signing_env where
  "sign0 = \<lparr>GetParties = (\<lambda>ps k. Some (map (\<lambda>p. \<lparr>party_Id = p, party_Moniker = []\<rparr>) ps,
                                          \<lparr>party_Id = k, party_Moniker = []\<rparr>)),
            Contains = (\<lambda>ps p. list_ex (\<lambda>q. party_Id q = party_Id p) ps),
            MsgToHashInt = (\<lambda>b a. let hash = take 32 b
                                     in Some (if length hash = 32 then SetBytes hash div 8
                                              else SetBytes hash)),
            json_Unmarshal = (\<lambda>b. if b = keyshare0
                                    then Some \<lparr>EDDSAPub = (0, 0), save_Bytes = b\<rparr> else None),
            SetupIDMaps_err1 = False,
            SetupIDMaps_err2 = False\<rparr>"

section \<open>Subscription table: proofs\<close>

lemma no_empty_leaves_New: "no_empty_leaves (NewCommunication rv h)"
  by (simp add: no_empty_leaves_def NewCommunication_def)

lemma SetSubscribe_keeps:
  assumes "no_empty_leaves c"
  shows "\<exists>c'. SetSubscribe c t m ch = Some c' \<and> no_empty_leaves c'"
proof (cases "subscribers c t")
  case None
  then show ?thesis
    using assms
    by (auto simp: SetSubscribe_def no_empty_leaves_def Subscribe_def NewMessageIDSubscriber_def)
next
  case (Some v)
  then obtain ms where v: "v = Some ms"
    using assms by (auto simp: no_empty_leaves_def)
  show ?thesis
    using assms Some v
    by (auto simp: SetSubscribe_def no_empty_leaves_def Subscribe_def)
qed

lemma CancelSubscribe_keeps:
  assumes "no_empty_leaves c"
  shows "no_empty_leaves (CancelSubscribe c t m)"
proof (cases "subscribers c t")
  case None
  then show ?thesis using assms by (simp add: CancelSubscribe_def)
next
  case (Some v)
  then obtain ms where v: "v = Some ms"
    using assms by (auto simp: no_empty_leaves_def)
  show ?thesis
  proof (cases "IsEmpty (UnSubscribe ms m)")
    case True
    then show ?thesis
      using assms Some v
      by (auto simp: CancelSubscribe_def no_empty_leaves_def Let_def)
  next
    case False
    then obtain k ch where "UnSubscribe ms m k = Some ch"
      unfolding IsEmpty_def dom_def by blast
    then show ?thesis
      using assms Some v False
      by (auto simp: CancelSubscribe_def no_empty_leaves_def Let_def)
  qed
qed

lemma run_sub_ops_keeps:
  "no_empty_leaves c \<Longrightarrow> \<exists>c'. run_sub_ops c ops = Some c' \<and> no_empty_leaves c'"
proof (induction ops arbitrary: c)
  case Nil
  then show ?case by simp
next
  case (Cons x xs)
  show ?case
  proof (cases x)
    case (OpSetSubscribe t m ch)
    from SetSubscribe_keeps [OF Cons.prems, of t m ch]
    obtain c1 where "SetSubscribe c t m ch = Some c1" "no_empty_leaves c1" by blast
    then show ?thesis
      using Cons.IH [of c1] OpSetSubscribe by simp
  next
    case (OpCancelSubscribe t m)
    then show ?thesis
      using Cons.IH [OF CancelSubscribe_keeps [OF Cons.prems, of t m]] by simp
  qed
qed

section \<open>Transport: proofs\<close>

lemma Uint32_PutUint32: "Uint32 (PutUint32 v) = v"
proof (rule bit_word_eqI)
  fix n assume n: "n < LENGTH(32)"
  have c: "n < 8 \<or> (8 \<le> n \<and> n < 16) \<or> (16 \<le> n \<and> n < 24) \<or> 24 \<le> n" by arith
  show "bit (Uint32 (PutUint32 v)) n = bit v n"
    using n c unfolding Uint32_def PutUint32_def
    by (auto simp: bit_simps)
qed

lemma length_PutUint32: "length (PutUint32 v) = LengthHeader"
  by (simp add: PutUint32_def LengthHeader_def)

lemma broadcast_loop_sent:
  "(p, bs) \<in> set (sent (broadcast_loop net c peers msg evs)) \<Longrightarrow>
     shouldWeWriteToPeer p peers \<and> p \<noteq> host_ID c \<and> Found p \<in> set evs"
proof (induction net c peers msg evs rule: broadcast_loop.induct)
  case (3 net c peers msg ai evs)
  then show ?case
    by (auto simp: Let_def writeToStream_def split: if_splits prod.splits option.splits)
qed simp_all

lemma readFromStream_delivers_example:
  "readFromStream reader0 comm0 [Data [3, 0, 0, 0, 1, 8, 8], StreamEOF]
     = \<lparr>delivered = [(5, \<lparr>PeerID = ''peerA'', Payload = [1, 8, 8]\<rparr>)], logged = []\<rparr>"
  by (simp add: readFromStream_def readFrame_def reader0_def comm0_def getSubscriber_def
      GetSubscriber_def LengthHeader_def MaxPayload_def Uint32_def Let_def)

lemma Broadcast_sent_only_to_named:
  assumes "peers \<noteq> []" and "(p, bs) \<in> set (sent (Broadcast net c peers msg))"
  shows "p \<in> set peers \<and> p \<noteq> host_ID c \<and> Found p \<in> set (peerChan net)"
proof -
  from assms have "(p, bs) \<in> set (sent (broadcast_loop net c peers msg (peerChan net)))"
    by (auto simp: Broadcast_def broadcastToPeers_def split: if_splits)
  from broadcast_loop_sent [OF this] assms(1) show ?thesis
    by (auto simp: shouldWeWriteToPeer_def list_ex_iff)
qed

section \<open>Sessions: proofs\<close>


lemma missingShareSweep_queries:
  "filter is_evidence_query (calls (missingShareSweep env rounds algo threshold st))
     = filter is_evidence_query (calls st)"
  by (simp add: missingShareSweep_def do_AddBlameNodes_def Let_def split: prod.splits)

section \<open>The orchestrator: proofs\<close>

lemma GetThreshold_div: "GetThreshold n = Some ((2 * n + 2) div 3 - 1)"
proof -
  have "2 / 3 * real_of_int n = real_of_int (2 * n) / real_of_int 3" by simp
  then have "\<lceil>2 / 3 * real_of_int n\<rceil> = - (- (2 * n) div 3)"
    by (simp only: ceiling_divide_eq_div)
  also have "\<dots> = (2 * n + 2) div 3" by presburger
  finally show ?thesis by (simp add: GetThreshold_def)
qed

lemma KeySign_session_JoinParty:
  "EffJoinParty i m ks \<in> set (snd (KeySign_session env req msgID item msgs signers)) \<Longrightarrow>
     i = msgID \<and> m = strings_Join (sort (Messages req)) '','' \<and> ks = SignerPubKeys req"
  by (auto simp: KeySign_session_def Let_def split: prod.splits option.splits if_splits)

lemma KeySign_checked_JoinParty:
  assumes "EffJoinParty i m ks \<in> set (snd (KeySign_checked env req msgID))"
  shows "\<exists>item msgs signers.
           KeySign_checked env req msgID = KeySign_session env req msgID item msgs signers"
  using assms
  by (auto simp: KeySign_checked_def split: option.splits if_splits)

section \<open>\<open>sort.SliceStable\<close>: proofs\<close>

text \<open>
  Each function of the sort is characterised on a slice cut into the part before the range it
  works on, the range, and the part after: it returns, leaves the outer parts as they are and
  rearranges the range.
\<close>

lemma total_preorderD:
  assumes "total_preorder lessFn"
  shows "lessFn x y \<or> lessFn y x" and "lessFn x y \<Longrightarrow> lessFn y z \<Longrightarrow> lessFn x z"
  using assms unfolding total_preorder_def by blast+

lemma swap_adjacent:
  "length pre = i \<Longrightarrow> swap (pre @ x # y # post) (Suc i) i = pre @ y # x # post"
  by (simp add: swap_def nth_append list_update_append)

lemma swap_adjacent':
  "length pre = i \<Longrightarrow> swap (pre @ x # y # post) i (Suc i) = pre @ y # x # post"
  by (simp add: swap_def nth_append list_update_append)

lemma insertionSort_inner_frame:
  assumes tp: "total_preorder lessFn"
  shows "sorted_wrt lessFn S \<Longrightarrow> length pre = a \<Longrightarrow> j = a + length S \<Longrightarrow>
           \<exists>T. insertionSort_inner lessFn a j (pre @ S @ x # post) = pre @ T @ post \<and>
               sorted_wrt lessFn T \<and> mset T = mset S + {#x#}"
proof (induction S arbitrary: j post rule: rev_induct)
  case Nil
  then show ?case
    by (subst insertionSort_inner.simps) (auto intro: exI [of _ "[x]"])
next
  case (snoc y S)
  have srt: "sorted_wrt lessFn S" and below: "\<forall>s\<in>set S. lessFn s y"
    using snoc.prems(1) by (auto simp: sorted_wrt_append)
  have at_j: "(pre @ (S @ [y]) @ x # post) ! j = x"
    using snoc.prems by (simp add: nth_append)
  have at_j1: "(pre @ (S @ [y]) @ x # post) ! (j - 1) = y"
    using snoc.prems by (simp add: nth_append)
  show ?case
  proof (cases "lessFn x y")
    case True
    have sw: "swap (pre @ (S @ [y]) @ x # post) j (j - 1) = pre @ S @ x # (y # post)"
      using swap_adjacent [where pre = "pre @ S" and i = "j - 1" and x = y and y = x and post = post] snoc.prems by simp
    from snoc.IH [OF srt snoc.prems(2), where j = "j - 1" and post = "y # post"] snoc.prems
    obtain T where T: "insertionSort_inner lessFn a (j - 1) (pre @ S @ x # y # post) = pre @ T @ y # post"
      "sorted_wrt lessFn T" "mset T = mset S + {#x#}" by auto
    have "set T = set S \<union> {x}"
      using T(3) by (metis set_mset_mset set_mset_union set_mset_add_mset_insert set_mset_empty Un_insert_right sup_bot.right_neutral)
    then have "sorted_wrt lessFn (T @ [y])"
      using T(2) below True by (auto simp: sorted_wrt_append)
    moreover have "insertionSort_inner lessFn a j (pre @ (S @ [y]) @ x # post) = pre @ (T @ [y]) @ post"
      using snoc.prems True at_j at_j1 sw T(1)
      by (subst insertionSort_inner.simps) simp
    moreover have "mset (T @ [y]) = mset (S @ [y]) + {#x#}"
      using T(3) by simp
    ultimately show ?thesis by blast
  next
    case False
    then have yx: "lessFn y x" using total_preorderD(1) [OF tp] by blast
    have "\<forall>s\<in>set S. lessFn s x" using below yx total_preorderD(2) [OF tp] by blast
    then have "sorted_wrt lessFn ((S @ [y]) @ [x])"
      using snoc.prems(1) yx by (auto simp: sorted_wrt_append)
    moreover have "insertionSort_inner lessFn a j (pre @ (S @ [y]) @ x # post) = pre @ ((S @ [y]) @ [x]) @ post"
      using False at_j at_j1
      by (subst insertionSort_inner.simps) simp
    ultimately show ?thesis by (metis mset_append mset.simps(2) mset.simps(1) add_mset_add_single union_mset_add_mset_right)
  qed
qed

lemma insertionSort_outer_frame:
  assumes tp: "total_preorder lessFn"
  shows "sorted_wrt lessFn S \<Longrightarrow> length pre = a \<Longrightarrow> i = a + length S \<Longrightarrow> b = i + length U \<Longrightarrow>
           \<exists>T. insertionSort_outer lessFn a b i (pre @ S @ U @ post) = pre @ T @ post \<and>
               sorted_wrt lessFn T \<and> mset T = mset S + mset U"
proof (induction U arbitrary: S i)
  case Nil
  then show ?case
    by (subst insertionSort_outer.simps) auto
next
  case (Cons x U)
  from insertionSort_inner_frame [OF tp Cons.prems(1,2,3), where x = x and post = "U @ post"]
  obtain T1 where T1: "insertionSort_inner lessFn a i (pre @ S @ x # U @ post) = pre @ T1 @ U @ post"
    "sorted_wrt lessFn T1" "mset T1 = mset S + {#x#}" by auto
  have len: "length T1 = Suc (length S)"
    using T1(3) by (metis size_mset size_union size_single Suc_eq_plus1)
  from Cons.IH [OF T1(2) Cons.prems(2), where i = "i + 1"] len Cons.prems
  obtain T where T: "insertionSort_outer lessFn a b (i + 1) (pre @ T1 @ U @ post) = pre @ T @ post"
    "sorted_wrt lessFn T" "mset T = mset T1 + mset U" by auto
  have "insertionSort_outer lessFn a b i (pre @ S @ (x # U) @ post) = pre @ T @ post"
    using Cons.prems T1(1) T(1) by (subst insertionSort_outer.simps) simp
  moreover have "mset T = mset S + mset (x # U)" using T(3) T1(3) by simp
  ultimately show ?case using T(2) by blast
qed

lemma insertionSort_func_frame:
  assumes tp: "total_preorder lessFn"
    and "length pre = a" and "b = a + length V"
  shows "\<exists>T. insertionSort_func lessFn a b (pre @ V @ post) = pre @ T @ post \<and>
             sorted_wrt lessFn T \<and> mset T = mset V"
proof (cases V)
  case Nil
  then show ?thesis
    using assms(3) unfolding insertionSort_func_def
    by (subst insertionSort_outer.simps) auto
next
  case (Cons v V')
  from insertionSort_outer_frame [OF tp, where S = "[v]" and pre = pre and a = a and i = "a + 1" and b = b and U = V' and post = post] assms(2,3) Cons
  show ?thesis
    unfolding insertionSort_func_def by auto
qed


lemma swap_frame:
  "length P = i \<Longrightarrow> j = Suc (i + length Z) \<Longrightarrow>
     swap (P @ x # Z @ y # Q) i j = P @ y # Z @ x # Q"
  by (simp add: swap_def nth_append list_update_append)

lemma swapRange_loop_frame:
  "length A = length B \<Longrightarrow> length P = a + i \<Longrightarrow> n = i + length A \<Longrightarrow>
   length P + length A + length M = b + i \<Longrightarrow>
     swapRange_loop a b n i (P @ A @ M @ B @ Q) = P @ B @ M @ A @ Q"
proof (induction A B arbitrary: P M i rule: list_induct2)
  case Nil
  then show ?case by (subst swapRange_loop.simps) simp
next
  case (Cons x A y B)
  have j: "b + i = Suc ((a + i) + length (A @ M))"
    using Cons.prems by simp
  have "swap (P @ x # (A @ M) @ y # (B @ Q)) (a + i) (b + i) = P @ y # (A @ M) @ x # (B @ Q)"
    using Cons.prems(1) j by (rule swap_frame)
  then have sw: "swap (P @ (x # A) @ M @ (y # B) @ Q) (a + i) (b + i)
                   = (P @ [y]) @ A @ (M @ [x]) @ B @ Q"
    by simp
  have "swapRange_loop a b n (i + 1) ((P @ [y]) @ A @ (M @ [x]) @ B @ Q)
          = (P @ [y]) @ B @ (M @ [x]) @ A @ Q"
  proof (rule Cons.IH)
    show "length (P @ [y]) = a + (i + 1)" using Cons.prems by simp
    show "n = i + 1 + length A" using Cons.prems by simp
    show "length (P @ [y]) + length A + length (M @ [x]) = b + (i + 1)" using Cons.prems by simp
  qed
  moreover have "i < n" using Cons.prems by simp
  ultimately show ?case
    by (subst swapRange_loop.simps) (simp only: sw if_True, simp)
qed

lemma swapRange_func_frame:
  assumes "length A = n" and "length B = n" and "length P = a"
    and "length P + length A + length M = b"
  shows "swapRange_func a b n (P @ A @ M @ B @ Q) = P @ B @ M @ A @ Q"
  unfolding swapRange_func_def
proof (rule swapRange_loop_frame)
  show "length A = length B" using assms by simp
  show "length P = a + 0" using assms by simp
  show "n = 0 + length A" using assms by simp
  show "length P + length A + length M = b + 0" using assms by simp
qed

lemma rotate_loop_frame:
  "0 < i \<Longrightarrow> 0 < j \<Longrightarrow> length P + i = m \<Longrightarrow> length L = i \<Longrightarrow> length R = j \<Longrightarrow>
     \<exists>i' xs'. rotate_loop m i j (P @ L @ R @ Q) = Some (i', xs') \<and>
              swapRange_func (m - i') m i' xs' = P @ R @ L @ Q"
proof (induction k \<equiv> "i + j" arbitrary: i j P L R Q rule: less_induct)
  case less
  consider "i = j" | "i > j" | "i < j" by linarith
  then show ?case
  proof cases
    case 1
    have "swapRange_func (m - i) m i (P @ L @ [] @ R @ Q) = P @ R @ [] @ L @ Q"
      using less.prems 1 by (intro swapRange_func_frame) simp_all
    moreover have "rotate_loop m i j (P @ L @ R @ Q) = Some (i, P @ L @ R @ Q)"
      using 1 by (subst rotate_loop.simps) simp
    ultimately show ?thesis by simp
  next
    case 2
    define L1 where "L1 = take j L"
    define L2 where "L2 = drop j L"
    have L: "L = L1 @ L2" "length L1 = j" "length L2 = i - j"
      using less.prems 2 by (simp_all add: L1_def L2_def)
    have sr: "swapRange_func (m - i) m j (P @ L1 @ L2 @ R @ Q) = P @ R @ L2 @ L1 @ Q"
      using less.prems 2 L by (intro swapRange_func_frame) simp_all
    have "\<exists>i' xs'. rotate_loop m (i - j) j ((P @ R) @ L2 @ L1 @ Q) = Some (i', xs') \<and>
                   swapRange_func (m - i') m i' xs' = (P @ R) @ L1 @ L2 @ Q"
      using less.prems 2 L by (intro less.hyps) simp_all
    moreover have "rotate_loop m i j (P @ L @ R @ Q) = rotate_loop m (i - j) j ((P @ R) @ L2 @ L1 @ Q)"
      using 2 sr L(1) by (subst rotate_loop.simps) simp
    ultimately show ?thesis using L(1) by simp
  next
    case 3
    define R1 where "R1 = take (j - i) R"
    define R2 where "R2 = drop (j - i) R"
    have R: "R = R1 @ R2" "length R1 = j - i" "length R2 = i"
      using less.prems 3 by (simp_all add: R1_def R2_def)
    have sr: "swapRange_func (m - i) (m + j - i) i (P @ L @ R1 @ R2 @ Q) = P @ R2 @ R1 @ L @ Q"
      using less.prems 3 R by (intro swapRange_func_frame) simp_all
    have "\<exists>i' xs'. rotate_loop m i (j - i) (P @ R2 @ R1 @ (L @ Q)) = Some (i', xs') \<and>
                   swapRange_func (m - i') m i' xs' = P @ R1 @ R2 @ (L @ Q)"
      using less.prems 3 R by (intro less.hyps) simp_all
    moreover have "rotate_loop m i j (P @ L @ R @ Q) = rotate_loop m i (j - i) (P @ R2 @ R1 @ (L @ Q))"
      using 3 sr R(1) by (subst rotate_loop.simps) simp
    ultimately show ?thesis using R(1) by simp
  qed
qed

lemma rotate_func_frame:
  assumes "a < m" and "m < b" and "length P = a" and "length L = m - a" and "length R = b - m"
  shows "rotate_func a m b (P @ L @ R @ Q) = Some (P @ R @ L @ Q)"
proof -
  have "\<exists>i' xs'. rotate_loop m (m - a) (b - m) (P @ L @ R @ Q) = Some (i', xs') \<and>
                 swapRange_func (m - i') m i' xs' = P @ R @ L @ Q"
    using assms by (intro rotate_loop_frame) simp_all
  then show ?thesis
    unfolding rotate_func_def by auto
qed

lemma binary_search_inv:
  assumes mono: "\<forall>h h'. lo \<le> h' \<and> h' \<le> h \<and> h < hi \<and> G h \<longrightarrow> G h'"
  shows "lo \<le> i \<Longrightarrow> i \<le> j \<Longrightarrow> j \<le> hi \<Longrightarrow> (\<forall>h. lo \<le> h \<and> h < i \<longrightarrow> G h) \<Longrightarrow>
         (\<forall>h. j \<le> h \<and> h < hi \<longrightarrow> \<not> G h) \<Longrightarrow>
           i \<le> binary_search G i j \<and> binary_search G i j \<le> j \<and>
           (\<forall>h. lo \<le> h \<and> h < binary_search G i j \<longrightarrow> G h) \<and>
           (\<forall>h. binary_search G i j \<le> h \<and> h < hi \<longrightarrow> \<not> G h)"
proof (induction d \<equiv> "j - i" arbitrary: i j rule: less_induct)
  case less
  show ?case
  proof (cases "i < j")
    case False
    with less.prems have "i = j" by simp
    moreover have "binary_search G j j = j"
      by (subst binary_search.simps) simp
    ultimately show ?thesis
      using less.prems by simp
  next
    case True
    define h where "h = (i + j) div 2"
    have h: "i \<le> h" "h < j" using True by (simp_all add: h_def)
    show ?thesis
    proof (cases "G h")
      case up: True
      have below: "\<forall>k. lo \<le> k \<and> k < h + 1 \<longrightarrow> G k"
      proof (intro allI impI)
        fix k assume "lo \<le> k \<and> k < h + 1"
        then have "lo \<le> k \<and> k \<le> h \<and> h < hi \<and> G h"
          using h less.prems up by simp
        then show "G k" using mono by blast
      qed
      have eq: "binary_search G i j = binary_search G (h + 1) j"
        using True up by (subst binary_search.simps) (simp add: h_def Let_def)
      have "h + 1 \<le> binary_search G (h + 1) j \<and> binary_search G (h + 1) j \<le> j \<and>
            (\<forall>k. lo \<le> k \<and> k < binary_search G (h + 1) j \<longrightarrow> G k) \<and>
            (\<forall>k. binary_search G (h + 1) j \<le> k \<and> k < hi \<longrightarrow> \<not> G k)"
        using h less.prems below by (intro less.hyps) simp_all
      then show ?thesis
        using eq h by simp
    next
      case dn: False
      have above: "\<forall>k. h \<le> k \<and> k < hi \<longrightarrow> \<not> G k"
      proof (intro allI impI)
        fix k assume k: "h \<le> k \<and> k < hi"
        show "\<not> G k"
        proof
          assume "G k"
          then have "lo \<le> h \<and> h \<le> k \<and> k < hi \<and> G k"
            using k h less.prems by simp
          then have "G h" using mono by blast
          with dn show False by simp
        qed
      qed
      have eq: "binary_search G i j = binary_search G i h"
        using True dn by (subst binary_search.simps) (simp add: h_def Let_def)
      have "i \<le> binary_search G i h \<and> binary_search G i h \<le> h \<and>
            (\<forall>k. lo \<le> k \<and> k < binary_search G i h \<longrightarrow> G k) \<and>
            (\<forall>k. binary_search G i h \<le> k \<and> k < hi \<longrightarrow> \<not> G k)"
        using h less.prems above by (intro less.hyps) simp_all
      then show ?thesis
        using eq h by simp
    qed
  qed
qed

lemma binary_search_spec:
  assumes "\<forall>h h'. i \<le> h' \<and> h' \<le> h \<and> h < j \<and> G h \<longrightarrow> G h'" and "i \<le> j"
  shows "i \<le> binary_search G i j \<and> binary_search G i j \<le> j \<and>
         (\<forall>h. i \<le> h \<and> h < binary_search G i j \<longrightarrow> G h) \<and>
         (\<forall>h. binary_search G i j \<le> h \<and> h < j \<longrightarrow> \<not> G h)"
  using assms(2) by (intro binary_search_inv [OF assms(1)]) auto

lemma shift_up_frame:
  "length P = k \<Longrightarrow> stop = k + length Z \<Longrightarrow> shift_up k stop (P @ x # Z @ Q) = P @ Z @ x # Q"
proof (induction Z arbitrary: P k)
  case Nil
  then show ?case by (subst shift_up.simps) simp
next
  case (Cons z Z)
  have "swap (P @ x # z # Z @ Q) k (Suc k) = P @ z # x # Z @ Q"
    using Cons.prems(1) by (rule swap_adjacent')
  moreover have "shift_up (k + 1) stop ((P @ [z]) @ x # Z @ Q) = (P @ [z]) @ Z @ x # Q"
    using Cons.prems by (intro Cons.IH) simp_all
  moreover have "k < stop" using Cons.prems by simp
  ultimately show ?case
    by (subst shift_up.simps) simp
qed

lemma shift_down_frame:
  "length P = i \<Longrightarrow> k = i + length Z \<Longrightarrow> shift_down k i (P @ Z @ y # Q) = P @ y # Z @ Q"
proof (induction Z arbitrary: k Q rule: rev_induct)
  case Nil
  then show ?case by (subst shift_down.simps) simp
next
  case (snoc z Z)
  have "swap ((P @ Z) @ z # y # Q) (Suc (k - 1)) (k - 1) = (P @ Z) @ y # z # Q"
    using snoc.prems by (intro swap_adjacent) simp
  then have sw: "swap (P @ (Z @ [z]) @ y # Q) k (k - 1) = P @ Z @ y # (z # Q)"
    using snoc.prems by simp
  moreover have "shift_down (k - 1) i (P @ Z @ y # (z # Q)) = P @ y # Z @ (z # Q)"
    using snoc.prems by (intro snoc.IH) simp_all
  moreover have "k > i" using snoc.prems by simp
  ultimately show ?case
    by (subst shift_down.simps) simp
qed


lemma sorted_wrt_nth_le:
  assumes "total_preorder lessFn" and "sorted_wrt lessFn xs" and "i \<le> j" and "j < length xs"
  shows "lessFn (xs ! i) (xs ! j)"
proof (cases "i = j")
  case True
  then show ?thesis using total_preorderD(1) [OF assms(1), of "xs ! i" "xs ! i"] by simp
next
  case False
  then show ?thesis using assms by (simp add: sorted_wrt_iff_nth_less)
qed

lemma nth_frame:
  "length P = a \<Longrightarrow> a \<le> h \<Longrightarrow> h - a < length L \<Longrightarrow> (P @ L @ Q) ! h = L ! (h - a)"
  by (simp add: nth_append)

lemma symMerge_first_frame:
  assumes tp: "total_preorder lessFn" and "m = a + 1" and "m \<le> b"
    and "length P = a" and "length R = b - m" and "sorted_wrt lessFn R"
  shows "\<exists>T. symMerge_first lessFn a m b (P @ x # R @ Q) = P @ T @ Q \<and>
             sorted_wrt lessFn T \<and> mset T = {#x#} + mset R"
proof -
  let ?xs = "P @ x # R @ Q"
  let ?G = "\<lambda>h. lessFn (?xs ! h) (?xs ! a)"
  have nth_R: "?xs ! h = R ! (h - m)" if "m \<le> h" "h < b" for h
  proof -
    have "?xs = (P @ [x]) @ R @ Q" by simp
    moreover have "length (P @ [x]) = m" using assms by simp
    moreover have "h - m < length R" using that assms by simp
    ultimately show ?thesis using that by (metis nth_frame)
  qed
  have nth_a: "?xs ! a = x" using assms by (simp add: nth_append)
  have mono: "\<forall>h h'. m \<le> h' \<and> h' \<le> h \<and> h < b \<and> ?G h \<longrightarrow> ?G h'"
  proof (intro allI impI)
    fix h h' assume "m \<le> h' \<and> h' \<le> h \<and> h < b \<and> ?G h"
    then have hh: "m \<le> h'" "h' \<le> h" "h < b" "?G h" by blast+
    have "lessFn (R ! (h' - m)) (R ! (h - m))"
    proof (rule sorted_wrt_nth_le [OF tp assms(6)])
      show "h' - m \<le> h - m" using hh by simp
      show "h - m < length R" using hh assms(5) by simp
    qed
    moreover have "lessFn (R ! (h - m)) x"
      using hh nth_R [of h] nth_a by simp
    ultimately have "lessFn (R ! (h' - m)) x"
      using total_preorderD(2) [OF tp] by blast
    then show "?G h'" using hh nth_R [of h'] nth_a by simp
  qed
  define r where "r = binary_search ?G m b"
  have r: "m \<le> r" "r \<le> b" "\<forall>h. m \<le> h \<and> h < r \<longrightarrow> ?G h" "\<forall>h. r \<le> h \<and> h < b \<longrightarrow> \<not> ?G h"
    unfolding r_def using binary_search_spec [OF mono \<open>m \<le> b\<close>] by blast+
  define R1 where "R1 = take (r - m) R"
  define R2 where "R2 = drop (r - m) R"
  have R: "R = R1 @ R2" "length R1 = r - m"
    using r assms by (simp_all add: R1_def R2_def)
  have R1x: "\<forall>y\<in>set R1. lessFn y x"
  proof
    fix y assume "y \<in> set R1"
    then obtain k where k: "k < length R1" "y = R1 ! k" by (metis in_set_conv_nth)
    then have "?G (m + k)" using r(3) R(2) by simp
    moreover have "?xs ! (m + k) = R ! k" using nth_R [of "m + k"] k R(2) r by simp
    moreover have "R ! k = R1 ! k" using k R by (simp add: nth_append)
    ultimately show "lessFn y x" using k nth_a by simp
  qed
  have xR2: "\<forall>z\<in>set R2. lessFn x z"
  proof
    fix z assume "z \<in> set R2"
    then obtain k where k: "k < length R2" "z = R2 ! k" by (metis in_set_conv_nth)
    have len: "length R = length R1 + length R2" using R(1) by (metis length_append)
    then have "r + k < b" using k R(2) assms r by simp
    then have "\<not> ?G (r + k)" using r(4) by simp
    moreover have "?xs ! (r + k) = R ! (r + k - m)" using nth_R [of "r + k"] \<open>r + k < b\<close> r by simp
    moreover have "r + k - m = length R1 + k" using R(2) r by simp
    then have "R ! (r + k - m) = R2 ! k" unfolding R(1) by (simp only: nth_append_length_plus)
    ultimately have "\<not> lessFn z x" using k nth_a by simp
    then show "lessFn x z" using total_preorderD(1) [OF tp] by blast
  qed
  have srt: "sorted_wrt lessFn (R1 @ x # R2)"
    using assms(6) R1x xR2 unfolding R(1) by (auto simp: sorted_wrt_append)
  have "shift_up a (r - 1) (P @ x # R1 @ (R2 @ Q)) = P @ R1 @ x # (R2 @ Q)"
    using assms r R(2) by (intro shift_up_frame) simp_all
  then have "symMerge_first lessFn a m b ?xs = P @ (R1 @ x # R2) @ Q"
    unfolding symMerge_first_def Let_def r_def [symmetric] using R(1) by simp
  moreover have "mset (R1 @ x # R2) = {#x#} + mset R"
    unfolding R(1) by simp
  ultimately show ?thesis using srt by blast
qed


lemma symMerge_last_frame:
  assumes tp: "total_preorder lessFn" and "b = m + 1" and "a \<le> m"
    and "length P = a" and "length L = m - a" and "sorted_wrt lessFn L"
  shows "\<exists>T. symMerge_last lessFn a m b (P @ L @ y # Q) = P @ T @ Q \<and>
             sorted_wrt lessFn T \<and> mset T = mset L + {#y#}"
proof -
  let ?xs = "P @ L @ y # Q"
  let ?G = "\<lambda>h. \<not> lessFn (?xs ! m) (?xs ! h)"
  have nth_L: "?xs ! h = L ! (h - a)" if "a \<le> h" "h < m" for h
  proof -
    have "h - a < length L" using that assms(5) by simp
    with assms(4) that(1) show ?thesis by (rule nth_frame)
  qed
  have nth_m: "?xs ! m = y"
  proof -
    have "?xs = (P @ L) @ y # Q" by simp
    moreover have "length (P @ L) = m" using assms by simp
    ultimately show ?thesis by (metis nth_append_length)
  qed
  have mono: "\<forall>h h'. a \<le> h' \<and> h' \<le> h \<and> h < m \<and> ?G h \<longrightarrow> ?G h'"
  proof (intro allI impI)
    fix h h' assume "a \<le> h' \<and> h' \<le> h \<and> h < m \<and> ?G h"
    then have hh: "a \<le> h'" "h' \<le> h" "h < m" "?G h" by blast+
    have le: "lessFn (L ! (h' - a)) (L ! (h - a))"
    proof (rule sorted_wrt_nth_le [OF tp assms(6)])
      show "h' - a \<le> h - a" using hh by simp
      show "h - a < length L" using hh assms(5) by simp
    qed
    have "\<not> lessFn y (L ! (h - a))"
      using hh nth_L [of h] nth_m by simp
    then have "\<not> lessFn y (L ! (h' - a))"
      using le total_preorderD(2) [OF tp] by blast
    then show "?G h'" using hh nth_L [of h'] nth_m by simp
  qed
  define r where "r = binary_search ?G a m"
  have r: "a \<le> r" "r \<le> m" "\<forall>h. a \<le> h \<and> h < r \<longrightarrow> ?G h" "\<forall>h. r \<le> h \<and> h < m \<longrightarrow> \<not> ?G h"
    unfolding r_def using binary_search_spec [OF mono \<open>a \<le> m\<close>] by blast+
  define L1 where "L1 = take (r - a) L"
  define L2 where "L2 = drop (r - a) L"
  have L: "L = L1 @ L2" "length L1 = r - a"
    using r assms by (simp_all add: L1_def L2_def)
  have len: "length L = length L1 + length L2" using L(1) by (metis length_append)
  have L1y: "\<forall>z\<in>set L1. lessFn z y"
  proof
    fix z assume "z \<in> set L1"
    then obtain k where k: "k < length L1" "z = L1 ! k" by (metis in_set_conv_nth)
    have ak: "a + k < r" using k(1) L(2) by simp
    then have "?G (a + k)" using r(3) by simp
    moreover have "?xs ! (a + k) = L ! k" using nth_L [of "a + k"] ak r by simp
    moreover have "L ! k = L1 ! k" using k(1) unfolding L(1) by (simp add: nth_append)
    ultimately have "\<not> lessFn y z" using k(2) nth_m by simp
    then show "lessFn z y" using total_preorderD(1) [OF tp] by blast
  qed
  have yL2: "\<forall>z\<in>set L2. lessFn y z"
  proof
    fix z assume "z \<in> set L2"
    then obtain k where k: "k < length L2" "z = L2 ! k" by (metis in_set_conv_nth)
    have rk: "r + k < m" using k(1) L(2) len assms(5) r by simp
    then have "\<not> ?G (r + k)" using r(4) by simp
    moreover have "?xs ! (r + k) = L ! (r + k - a)" using nth_L [of "r + k"] rk r by simp
    moreover have "r + k - a = length L1 + k" using L(2) r by simp
    then have "L ! (r + k - a) = L2 ! k" unfolding L(1) by (simp only: nth_append_length_plus)
    ultimately show "lessFn y z" using k(2) nth_m by simp
  qed
  have srt: "sorted_wrt lessFn (L1 @ y # L2)"
    using assms(6) L1y yL2 unfolding L(1) by (auto simp: sorted_wrt_append)
  have "shift_down m r ((P @ L1) @ L2 @ y # Q) = (P @ L1) @ y # L2 @ Q"
    using assms r L(2) len by (intro shift_down_frame) simp_all
  then have "symMerge_last lessFn a m b ?xs = P @ (L1 @ y # L2) @ Q"
    unfolding symMerge_last_def Let_def r_def [symmetric] using L(1) by simp
  moreover have "mset (L1 @ y # L2) = mset L + {#y#}"
    unfolding L(1) by simp
  ultimately show ?thesis using srt by blast
qed


lemma cross_split:
  assumes tp: "total_preorder lessFn" and sL: "sorted_wrt lessFn L" and sR: "sorted_wrt lessFn R"
    and s: "s \<le> length L" and t: "t \<le> length R"
    and A: "0 < s \<Longrightarrow> t < length R \<Longrightarrow> lessFn (L ! (s - 1)) (R ! t)"
    and B: "s < length L \<Longrightarrow> 0 < t \<Longrightarrow> lessFn (R ! (t - 1)) (L ! s)"
  shows "\<forall>u\<in>set (take s L @ take t R). \<forall>v\<in>set (drop s L @ drop t R). lessFn u v"
proof (intro ballI)
  fix u v assume u: "u \<in> set (take s L @ take t R)" and v: "v \<in> set (drop s L @ drop t R)"
  note trans = total_preorderD(2) [OF tp]
  from u consider i where "i < s" "u = L ! i" | i where "i < t" "u = R ! i"
    using s t by (auto simp: in_set_conv_nth)
  then show "lessFn u v"
  proof cases
    case 1
    from v consider j where "s \<le> j" "j < length L" "v = L ! j" | j where "t \<le> j" "j < length R" "v = R ! j"
      by (auto simp: in_set_conv_nth) (metis add.commute le_add2 less_diff_conv)+
    then show ?thesis
    proof cases
      case 1
      have "i \<le> j" using \<open>i < s\<close> 1(1) by simp
      from sorted_wrt_nth_le [OF tp sL this 1(2)] show ?thesis
        using \<open>u = L ! i\<close> 1(3) by simp
    next
      case 2
      have a1: "lessFn (L ! i) (L ! (s - 1))"
      proof (rule sorted_wrt_nth_le [OF tp sL])
        show "i \<le> s - 1" using \<open>i < s\<close> by simp
        show "s - 1 < length L" using \<open>i < s\<close> s by simp
      qed
      have a2: "lessFn (L ! (s - 1)) (R ! t)"
        using A \<open>i < s\<close> 2 by simp
      have a3: "lessFn (R ! t) (R ! j)"
        using sorted_wrt_nth_le [OF tp sR 2(1) 2(2)] .
      show ?thesis
        using trans [OF trans [OF a1 a2] a3] \<open>u = L ! i\<close> 2(3) by simp
    qed
  next
    case 2
    from v consider j where "s \<le> j" "j < length L" "v = L ! j" | j where "t \<le> j" "j < length R" "v = R ! j"
      by (auto simp: in_set_conv_nth) (metis add.commute le_add2 less_diff_conv)+
    then show ?thesis
    proof cases
      case 1
      have a1: "lessFn (R ! i) (R ! (t - 1))"
      proof (rule sorted_wrt_nth_le [OF tp sR])
        show "i \<le> t - 1" using \<open>i < t\<close> by simp
        show "t - 1 < length R" using \<open>i < t\<close> t by simp
      qed
      have a2: "lessFn (R ! (t - 1)) (L ! s)"
        using B \<open>i < t\<close> 1 by simp
      have a3: "lessFn (L ! s) (L ! j)"
        using sorted_wrt_nth_le [OF tp sL 1(1) 1(2)] .
      show ?thesis
        using trans [OF trans [OF a1 a2] a3] \<open>u = R ! i\<close> 1(3) by simp
    next
      case 2
      have "i \<le> j" using \<open>i < t\<close> 2(1) by simp
      from sorted_wrt_nth_le [OF tp sR this 2(2)] show ?thesis
        using \<open>u = R ! i\<close> 2(3) by simp
    qed
  qed
qed


lemma symMerge_start_spec:
  assumes tp: "total_preorder lessFn" and am: "a < m" and mb: "m < b"
    and lP: "length P = a" and lL: "length L = m - a" and lR: "length R = b - m"
    and sL: "sorted_wrt lessFn L" and sR: "sorted_wrt lessFn R"
    and xs: "xs = P @ L @ R @ Q" and mid: "mid = (a + b) div 2"
    and start: "start = symMerge_start lessFn a m b xs" and e: "e = mid + m - start"
  shows "a \<le> start \<and> start \<le> m \<and> start \<le> mid \<and> m \<le> e \<and> e \<le> b \<and> e = mid + (m - start)"
    and "a < start \<Longrightarrow> e < b \<Longrightarrow> lessFn (L ! (start - a - 1)) (R ! (e - m))"
    and "start < m \<Longrightarrow> m < e \<Longrightarrow> lessFn (R ! (e - m - 1)) (L ! (start - a))"
proof -
  have mid2: "2 * mid \<le> a + b" "a + b \<le> 2 * mid + 1"
    unfolding mid by linarith+
  define start0 where "start0 = (if m > mid then mid + m - b else a)"
  define r0 where "r0 = (if m > mid then mid else m)"
  define p where "p = mid + m - 1"
  let ?G = "\<lambda>c. \<not> lessFn (xs ! (p - c)) (xs ! c)"
  have start_eq: "start = binary_search ?G start0 r0"
    unfolding start symMerge_start_def Let_def start0_def r0_def p_def mid by simp
  have b0: "a \<le> start0" "start0 \<le> r0" "r0 \<le> m" "r0 \<le> mid"
    using am mb mid2 unfolding start0_def r0_def by (auto split: if_splits)
  have rng: "m \<le> p - c" "p - c < b" "c \<le> p" if "start0 \<le> c" "c < r0" for c
    using that am mb mid2 unfolding start0_def r0_def p_def by (auto split: if_splits)
  have nth_L: "xs ! c = L ! (c - a)" if "a \<le> c" "c < m" for c
  proof -
    have "c - a < length L" using that lL by simp
    with lP that(1) show ?thesis unfolding xs by (rule nth_frame)
  qed
  have nth_R: "xs ! c = R ! (c - m)" if "m \<le> c" "c < b" for c
  proof -
    have "xs = (P @ L) @ R @ []  @ Q" unfolding xs by simp
    moreover have "length (P @ L) = m" using lP lL am by simp
    moreover have "c - m < length R" using that lR by simp
    ultimately show ?thesis using that(1) by (simp only: nth_frame)
  qed
  have G_eq: "?G c \<longleftrightarrow> \<not> lessFn (R ! (p - c - m)) (L ! (c - a))" if "start0 \<le> c" "c < r0" for c
  proof -
    have "xs ! (p - c) = R ! (p - c - m)" using rng [OF that] by (intro nth_R) simp_all
    moreover have "xs ! c = L ! (c - a)" using that b0 by (intro nth_L) simp_all
    ultimately show ?thesis by simp
  qed
  have mono: "\<forall>c c'. start0 \<le> c' \<and> c' \<le> c \<and> c < r0 \<and> ?G c \<longrightarrow> ?G c'"
  proof (intro allI impI)
    fix c c' assume "start0 \<le> c' \<and> c' \<le> c \<and> c < r0 \<and> ?G c"
    then have cc: "start0 \<le> c'" "c' \<le> c" "c < r0" "?G c" by blast+
    have c'r: "c' < r0" and c0: "start0 \<le> c" using cc by simp_all
    have l1: "lessFn (L ! (c' - a)) (L ! (c - a))"
    proof (rule sorted_wrt_nth_le [OF tp sL])
      show "c' - a \<le> c - a" using cc by simp
      show "c - a < length L" using cc b0 lL by simp
    qed
    have l2: "lessFn (R ! (p - c - m)) (R ! (p - c' - m))"
    proof (rule sorted_wrt_nth_le [OF tp sR])
      show "p - c - m \<le> p - c' - m" using cc by simp
      show "p - c' - m < length R" using rng [OF cc(1) c'r] lR by simp
    qed
    have "\<not> lessFn (R ! (p - c - m)) (L ! (c - a))"
      using cc(4) G_eq [OF c0 cc(3)] by simp
    then have "\<not> lessFn (R ! (p - c' - m)) (L ! (c' - a))"
      using l1 l2 total_preorderD(2) [OF tp] by blast
    then show "?G c'" using G_eq [OF cc(1) c'r] by simp
  qed
  have bs: "start0 \<le> start" "start \<le> r0" "\<forall>h. start0 \<le> h \<and> h < start \<longrightarrow> ?G h"
    "\<forall>h. start \<le> h \<and> h < r0 \<longrightarrow> \<not> ?G h"
    unfolding start_eq using binary_search_spec [OF mono b0(2)] by blast+
  have bnd: "a \<le> start" "start \<le> m" "start \<le> mid" "m \<le> e" "e \<le> b"
    using bs(1,2) b0 am mb mid2 e unfolding start0_def r0_def by (auto split: if_splits)
  have e_alt: "e = mid + (m - start)"
    using bnd(2) e by simp
  show "a \<le> start \<and> start \<le> m \<and> start \<le> mid \<and> m \<le> e \<and> e \<le> b \<and> e = mid + (m - start)"
    using bnd e_alt by blast
  {
    assume as: "a < start" and eb: "e < b"
    have lt: "start0 < start"
      using as eb bs(1) bnd(2) e unfolding start0_def by (auto split: if_splits)
    then have c: "start0 \<le> start - 1" "start - 1 < r0" using bs(2) by simp_all
    have "start - 1 < start" using lt by simp
    then have "?G (start - 1)" using bs(3) c(1) by blast
    then have nG: "\<not> lessFn (R ! (p - (start - 1) - m)) (L ! (start - 1 - a))"
      using G_eq [OF c] by blast
    have "p - (start - 1) = e"
      using lt bnd(2) e unfolding p_def by linarith
    then have i1: "p - (start - 1) - m = e - m" by simp
    have i2: "start - 1 - a = start - a - 1" by simp
    from nG have "\<not> lessFn (R ! (e - m)) (L ! (start - a - 1))"
      unfolding i1 i2 .
    then show "lessFn (L ! (start - a - 1)) (R ! (e - m))"
      using total_preorderD(1) [OF tp] by blast
  }
  {
    assume sm: "start < m" and me: "m < e"
    have sr: "start < r0"
      using sm me bs(2) e unfolding r0_def by (auto split: if_splits)
    have "\<not> ?G start" using bs(4) sr by blast
    then have yG: "lessFn (R ! (p - start - m)) (L ! (start - a))"
      using G_eq [OF bs(1) sr] by blast
    have "p - start = e - 1"
      using bnd(2) e unfolding p_def by linarith
    then have i1: "p - start - m = e - m - 1" by simp
    from yG show "lessFn (R ! (e - m - 1)) (L ! (start - a))"
      unfolding i1 .
  }
qed


lemma symMerge_func_frame:
  assumes tp: "total_preorder lessFn"
  shows "a < m \<Longrightarrow> m < b \<Longrightarrow> length P = a \<Longrightarrow> length L = m - a \<Longrightarrow> length R = b - m \<Longrightarrow>
         sorted_wrt lessFn L \<Longrightarrow> sorted_wrt lessFn R \<Longrightarrow>
           \<exists>T. symMerge_func lessFn a m b (P @ L @ R @ Q) = Some (P @ T @ Q) \<and>
               sorted_wrt lessFn T \<and> mset T = mset L + mset R"
proof (induction d \<equiv> "b - a" arbitrary: a m b P L R Q rule: less_induct)
  case less
  note am = less.prems(1) and mb = less.prems(2) and lP = less.prems(3) and lL = less.prems(4)
    and lR = less.prems(5) and sL = less.prems(6) and sR = less.prems(7)
  let ?xs = "P @ L @ R @ Q"
  consider (first) "m - a = 1" | (last) "m - a \<noteq> 1" "b - m = 1" | (gen) "m - a \<noteq> 1" "b - m \<noteq> 1"
    by blast
  then show ?case
  proof cases
    case first
    then obtain x where L: "L = [x]"
      using lL by (cases L) auto
    have eq: "symMerge_func lessFn a m b ?xs = Some (symMerge_first lessFn a m b ?xs)"
      using first by (subst symMerge_func.simps) simp
    have "m = a + 1" and "m \<le> b" using first mb by simp_all
    from symMerge_first_frame [OF tp this lP lR sR, of x Q]
    obtain T where "symMerge_first lessFn a m b (P @ x # R @ Q) = P @ T @ Q"
      "sorted_wrt lessFn T" "mset T = {#x#} + mset R" by blast
    then show ?thesis using eq L by auto
  next
    case last
    then obtain y where R: "R = [y]"
      using lR by (cases R) auto
    have eq: "symMerge_func lessFn a m b ?xs = Some (symMerge_last lessFn a m b ?xs)"
      using last by (subst symMerge_func.simps) simp
    have "b = m + 1" and "a \<le> m" using last am by simp_all
    from symMerge_last_frame [OF tp this lP lL sL, of y Q]
    obtain T where "symMerge_last lessFn a m b (P @ L @ y # Q) = P @ T @ Q"
      "sorted_wrt lessFn T" "mset T = mset L + {#y#}" by blast
    then show ?thesis using eq R by auto
  next
    case gen
    define mid where "mid = (a + b) div 2"
    define start where "start = symMerge_start lessFn a m b ?xs"
    define e where "e = mid + m - start"
    have mid2: "a < mid" "mid < b"
      using am mb unfolding mid_def by linarith+
    note spec = symMerge_start_spec [OF tp am mb lP lL lR sL sR refl mid_def start_def e_def]
    have bnd: "a \<le> start" "start \<le> m" "start \<le> mid" "m \<le> e" "e \<le> b" "e = mid + (m - start)"
      using spec(1) by blast+
    define L1 where "L1 = take (start - a) L"
    define L2 where "L2 = drop (start - a) L"
    define R1 where "R1 = take (e - m) R"
    define R2 where "R2 = drop (e - m) R"
    have L: "L = L1 @ L2" and R: "R = R1 @ R2"
      by (simp_all add: L1_def L2_def R1_def R2_def)
    have len: "length L1 = start - a" "length L2 = m - start" "length R1 = e - m" "length R2 = b - e"
      using bnd lL lR by (simp_all add: L1_def L2_def R1_def R2_def)
    have srt: "sorted_wrt lessFn L1" "sorted_wrt lessFn L2" "sorted_wrt lessFn R1" "sorted_wrt lessFn R2"
      using sL sR unfolding L R by (simp_all add: sorted_wrt_append)
    have cross: "\<forall>u\<in>set (L1 @ R1). \<forall>v\<in>set (L2 @ R2). lessFn u v"
      unfolding L1_def L2_def R1_def R2_def
    proof (rule cross_split [OF tp sL sR])
      show "start - a \<le> length L" using bnd lL by simp
      show "e - m \<le> length R" using bnd lR by simp
      show "lessFn (L ! (start - a - 1)) (R ! (e - m))" if "0 < start - a" "e - m < length R"
      proof (rule spec(2))
        show "a < start" using that by simp
        show "e < b" using that lR bnd by simp
      qed
      show "lessFn (R ! (e - m - 1)) (L ! (start - a))" if "start - a < length L" "0 < e - m"
      proof (rule spec(3))
        show "start < m" using that lL bnd by simp
        show "m < e" using that by simp
      qed
    qed
    define xs1 where "xs1 = (if start < m \<and> m < e then rotate_func start m e ?xs else Some ?xs)"
    define step2 where "step2 = (\<lambda>xs1. if a < start \<and> start < mid
                                      then symMerge_func lessFn a start mid xs1 else Some xs1)"
    define step3 where "step3 = (\<lambda>xs2. if mid < e \<and> e < b
                                      then symMerge_func lessFn mid e b xs2 else Some xs2)"
    have unfold: "symMerge_func lessFn a m b ?xs = Option.bind xs1 (\<lambda>xs1. Option.bind (step2 xs1) step3)"
      by (subst symMerge_func.simps)
         (simp only: gen if_False Let_def mid_def start_def e_def xs1_def step2_def step3_def)
    have xs1: "xs1 = Some (P @ L1 @ R1 @ L2 @ R2 @ Q)"
    proof (cases "start < m \<and> m < e")
      case True
      have "rotate_func start m e ((P @ L1) @ L2 @ R1 @ (R2 @ Q)) = Some ((P @ L1) @ R1 @ L2 @ (R2 @ Q))"
      proof (rule rotate_func_frame)
        show "start < m" "m < e" using True by simp_all
        show "length (P @ L1) = start" using lP len bnd by simp
        show "length L2 = m - start" "length R1 = e - m" using len by simp_all
      qed
      then show ?thesis using True unfolding xs1_def L R by simp
    next
      case False
      then have "L2 = [] \<or> R1 = []" using bnd len by auto
      then show ?thesis using False unfolding xs1_def L R by auto
    qed
    have "\<exists>T1. step2 (P @ L1 @ R1 @ L2 @ R2 @ Q) = Some (P @ T1 @ L2 @ R2 @ Q) \<and>
                sorted_wrt lessFn T1 \<and> mset T1 = mset L1 + mset R1"
    proof (cases "a < start \<and> start < mid")
      case True
      have "\<exists>T. symMerge_func lessFn a start mid (P @ L1 @ R1 @ (L2 @ R2 @ Q))
                   = Some (P @ T @ (L2 @ R2 @ Q)) \<and>
                 sorted_wrt lessFn T \<and> mset T = mset L1 + mset R1"
      proof (rule less.hyps)
        show "mid - a < b - a" using mid2 by simp
        show "a < start" "start < mid" using True by simp_all
        show "length P = a" by (rule lP)
        show "length L1 = start - a" by (rule len(1))
        show "length R1 = mid - start" using len(3) bnd by simp
        show "sorted_wrt lessFn L1" "sorted_wrt lessFn R1" by (rule srt)+
      qed
      then show ?thesis using True unfolding step2_def by simp
    next
      case False
      then have "L1 = [] \<or> R1 = []" using bnd len by auto
      then have "sorted_wrt lessFn (L1 @ R1)" using srt by auto
      then show ?thesis using False unfolding step2_def
        by (intro exI [of _ "L1 @ R1"]) auto
    qed
    then obtain T1 where T1: "step2 (P @ L1 @ R1 @ L2 @ R2 @ Q) = Some (P @ T1 @ L2 @ R2 @ Q)"
      "sorted_wrt lessFn T1" "mset T1 = mset L1 + mset R1" by blast
    have lT1: "length T1 = mid - a"
    proof -
      have "length T1 = length L1 + length R1"
        using T1(3) by (metis size_mset size_union)
      then show ?thesis using len bnd by simp
    qed
    have "\<exists>T2. step3 (P @ T1 @ L2 @ R2 @ Q) = Some (P @ T1 @ T2 @ Q) \<and> sorted_wrt lessFn T2 \<and>
                mset T2 = mset L2 + mset R2"
    proof (cases "mid < e \<and> e < b")
      case True
      have "\<exists>T. symMerge_func lessFn mid e b ((P @ T1) @ L2 @ R2 @ Q) = Some ((P @ T1) @ T @ Q) \<and>
                 sorted_wrt lessFn T \<and> mset T = mset L2 + mset R2"
      proof (rule less.hyps)
        show "b - mid < b - a" using mid2 by simp
        show "mid < e" "e < b" using True by simp_all
        show "length (P @ T1) = mid" using lP lT1 mid2 by simp
        show "length L2 = e - mid" using len(2) bnd by simp
        show "length R2 = b - e" by (rule len(4))
        show "sorted_wrt lessFn L2" "sorted_wrt lessFn R2" by (rule srt)+
      qed
      then show ?thesis using True unfolding step3_def by simp
    next
      case False
      then have "L2 = [] \<or> R2 = []" using bnd len by auto
      then have "sorted_wrt lessFn (L2 @ R2)" using srt by auto
      then show ?thesis using False unfolding step3_def
        by (intro exI [of _ "L2 @ R2"]) auto
    qed
    then obtain T2 where T2': "step3 (P @ T1 @ L2 @ R2 @ Q) = Some (P @ T1 @ T2 @ Q)"
      and T2s: "sorted_wrt lessFn T2" "mset T2 = mset L2 + mset R2" by blast
    have T2: "symMerge_func lessFn a m b ?xs = Some (P @ T1 @ T2 @ Q)"
      unfolding unfold xs1 using T1(1) T2' by simp
    have sets: "set T1 = set (L1 @ R1)" "set T2 = set (L2 @ R2)"
      using T1(3) T2s(2) by (metis mset_append set_mset_mset)+
    have "sorted_wrt lessFn (T1 @ T2)"
      using T1(2) T2s(1) cross unfolding sets [symmetric] by (simp add: sorted_wrt_append)
    moreover have "mset (T1 @ T2) = mset L + mset R"
      using T1(3) T2s(2) unfolding L R by simp
    moreover have "symMerge_func lessFn a m b ?xs = Some (P @ (T1 @ T2) @ Q)"
      using T2 by simp
    ultimately show ?thesis by blast
  qed
qed

lemma runs_short: "sorted_wrt lessFn xs \<Longrightarrow> length xs \<le> blockSize \<Longrightarrow> runs lessFn blockSize xs"
  unfolding runs_def
proof
  fix k assume s: "sorted_wrt lessFn xs" and l: "length xs \<le> blockSize"
  show "sorted_wrt lessFn (take blockSize (drop (k * blockSize) xs))"
  proof (cases k)
    case 0
    then show ?thesis using s l by simp
  next
    case (Suc k')
    then have "drop (k * blockSize) xs = []" using l by simp
    then show ?thesis by simp
  qed
qed

lemma runs_sorted: "runs lessFn blockSize xs \<Longrightarrow> length xs \<le> blockSize \<Longrightarrow> sorted_wrt lessFn xs"
  unfolding runs_def by (drule spec [of _ 0]) simp

lemma runs_append:
  assumes "length A = blockSize"
  shows "runs lessFn blockSize (A @ Z) \<longleftrightarrow> sorted_wrt lessFn A \<and> runs lessFn blockSize Z"
proof
  assume r: "runs lessFn blockSize (A @ Z)"
  have "sorted_wrt lessFn A"
    using r [unfolded runs_def, THEN spec, of 0] assms by simp
  moreover have "runs lessFn blockSize Z"
    unfolding runs_def
  proof
    fix k
    have "drop (Suc k * blockSize) (A @ Z) = drop (k * blockSize) Z"
      using assms by simp
    then show "sorted_wrt lessFn (take blockSize (drop (k * blockSize) Z))"
      using r [unfolded runs_def, THEN spec, of "Suc k"] by simp
  qed
  ultimately show "sorted_wrt lessFn A \<and> runs lessFn blockSize Z" by simp
next
  assume a: "sorted_wrt lessFn A \<and> runs lessFn blockSize Z"
  show "runs lessFn blockSize (A @ Z)"
    unfolding runs_def
  proof
    fix k
    show "sorted_wrt lessFn (take blockSize (drop (k * blockSize) (A @ Z)))"
    proof (cases k)
      case 0
      then show ?thesis using a assms by simp
    next
      case (Suc k')
      have "drop (Suc k' * blockSize) (A @ Z) = drop (k' * blockSize) Z"
        using assms by simp
      then show ?thesis
        using a Suc unfolding runs_def by simp
    qed
  qed
qed

lemma insertion_blocks_frame:
  assumes tp: "total_preorder lessFn"
  shows "length P = a \<Longrightarrow> b = a + 20 \<Longrightarrow> n = a + length Z \<Longrightarrow>
           (case insertion_blocks lessFn n a b (P @ Z) of
              (a', xs') \<Rightarrow> \<exists>Z'. insertionSort_func lessFn a' n xs' = P @ Z' \<and>
                                runs lessFn 20 Z' \<and> mset Z' = mset Z)"
proof (induction d \<equiv> "length Z" arbitrary: P a b Z rule: less_induct)
  case less
  show ?case
  proof (cases "b \<le> n")
    case True
    define A where "A = take 20 Z"
    define Z1 where "Z1 = drop 20 Z"
    have Z: "Z = A @ Z1" and lA: "length A = 20"
      using True less.prems by (simp_all add: A_def Z1_def)
    have lZ: "length Z = 20 + length Z1" using Z lA by (metis length_append)
    from insertionSort_func_frame [OF tp less.prems(1), of b A Z1] less.prems(2) lA
    obtain T where T: "insertionSort_func lessFn a b (P @ A @ Z1) = P @ T @ Z1"
      "sorted_wrt lessFn T" "mset T = mset A" by auto
    have lT: "length T = 20" using T(3) lA by (metis size_mset)
    have "case insertion_blocks lessFn n b (b + 20) ((P @ T) @ Z1) of
            (a', xs') \<Rightarrow> \<exists>Z'. insertionSort_func lessFn a' n xs' = (P @ T) @ Z' \<and>
                              runs lessFn 20 Z' \<and> mset Z' = mset Z1"
    proof (rule less.hyps)
      show "length Z1 < length Z" using lZ by simp
      show "length (P @ T) = b" using less.prems lT by simp
      show "b + 20 = b + 20" by simp
      show "n = b + length Z1" using less.prems lZ by simp
    qed
    then obtain a' xs' Z1' where r: "insertion_blocks lessFn n b (b + 20) (P @ T @ Z1) = (a', xs')"
      "insertionSort_func lessFn a' n xs' = P @ T @ Z1'" "runs lessFn 20 Z1'" "mset Z1' = mset Z1"
      by (auto split: prod.splits)
    have "insertion_blocks lessFn n a b (P @ Z) = (a', xs')"
      using True r(1) T(1) unfolding Z by (subst insertion_blocks.simps) simp
    moreover have "runs lessFn 20 (T @ Z1')"
      using runs_append [OF lT] T(2) r(3) by blast
    moreover have "mset (T @ Z1') = mset Z"
      using T(3) r(4) unfolding Z by simp
    ultimately show ?thesis using r(2) by auto
  next
    case False
    have eq: "insertion_blocks lessFn n a b (P @ Z) = (a, P @ Z)"
      using False by (subst insertion_blocks.simps) simp
    from insertionSort_func_frame [OF tp less.prems(1), of n Z "[]"] less.prems(3)
    obtain T where T: "insertionSort_func lessFn a n (P @ Z) = P @ T"
      "sorted_wrt lessFn T" "mset T = mset Z" by auto
    have "length T \<le> 20"
    proof -
      have "length T = length Z" using T(3) by (metis size_mset)
      then show ?thesis using False less.prems by simp
    qed
    then have "runs lessFn 20 T" using T(2) by (intro runs_short)
    then show ?thesis using eq T by auto
  qed
qed

lemma merge_blocks_frame:
  assumes tp: "total_preorder lessFn" and bs: "0 < blockSize"
  shows "length P = a \<Longrightarrow> b = a + 2 * blockSize \<Longrightarrow> n = a + length Z \<Longrightarrow> runs lessFn blockSize Z \<Longrightarrow>
           \<exists>a' xs' Z'. merge_blocks lessFn n blockSize a b (P @ Z) = Some (a', xs') \<and>
              (if a' + blockSize < n then symMerge_func lessFn a' (a' + blockSize) n xs' else Some xs')
                 = Some (P @ Z') \<and>
              runs lessFn (2 * blockSize) Z' \<and> mset Z' = mset Z"
proof (induction d \<equiv> "length Z" arbitrary: P a b Z rule: less_induct)
  case less
  note lP = less.prems(1) and b = less.prems(2) and n = less.prems(3) and rZ = less.prems(4)
  define A where "A = take blockSize Z"
  define Z0 where "Z0 = drop blockSize Z"
  have Z: "Z = A @ Z0" by (simp add: A_def Z0_def)
  show ?case
  proof (cases "b \<le> n")
    case True
    define B where "B = take blockSize Z0"
    define Z1 where "Z1 = drop blockSize Z0"
    have Z0: "Z0 = B @ Z1" by (simp add: B_def Z1_def)
    have lA: "length A = blockSize" and lB: "length B = blockSize"
      using True b n by (simp_all add: A_def B_def Z0_def)
    have lZ: "length Z = 2 * blockSize + length Z1"
      using lA lB unfolding Z Z0 by simp
    have sA: "sorted_wrt lessFn A" and rZ0: "runs lessFn blockSize Z0"
      using rZ runs_append [OF lA] unfolding Z by blast+
    have sB: "sorted_wrt lessFn B" and rZ1: "runs lessFn blockSize Z1"
      using rZ0 runs_append [OF lB] unfolding Z0 by blast+
    have "\<exists>T. symMerge_func lessFn a (a + blockSize) b (P @ A @ B @ Z1) = Some (P @ T @ Z1) \<and>
               sorted_wrt lessFn T \<and> mset T = mset A + mset B"
    proof (rule symMerge_func_frame [OF tp])
      show "a < a + blockSize" "a + blockSize < b" using bs b by simp_all
      show "length P = a" by (rule lP)
      show "length A = a + blockSize - a" using lA by simp
      show "length B = b - (a + blockSize)" using lB b by simp
      show "sorted_wrt lessFn A" "sorted_wrt lessFn B" by (rule sA, rule sB)
    qed
    then obtain T where T: "symMerge_func lessFn a (a + blockSize) b (P @ A @ B @ Z1) = Some (P @ T @ Z1)"
      "sorted_wrt lessFn T" "mset T = mset A + mset B" by blast
    have lT: "length T = 2 * blockSize"
    proof -
      have "length T = length A + length B" using T(3) by (metis size_mset size_union)
      then show ?thesis using lA lB by simp
    qed
    have "\<exists>a' xs' Z'. merge_blocks lessFn n blockSize b (b + 2 * blockSize) ((P @ T) @ Z1) = Some (a', xs') \<and>
              (if a' + blockSize < n then symMerge_func lessFn a' (a' + blockSize) n xs' else Some xs')
                 = Some ((P @ T) @ Z') \<and>
              runs lessFn (2 * blockSize) Z' \<and> mset Z' = mset Z1"
    proof (rule less.hyps)
      show "length Z1 < length Z" using lZ bs by simp
      show "length (P @ T) = b" using lP lT b by simp
      show "b + 2 * blockSize = b + 2 * blockSize" by simp
      show "n = b + length Z1" using n b lZ by simp
      show "runs lessFn blockSize Z1" by (rule rZ1)
    qed
    then obtain a' xs' Z1' where r:
      "merge_blocks lessFn n blockSize b (b + 2 * blockSize) (P @ T @ Z1) = Some (a', xs')"
      "(if a' + blockSize < n then symMerge_func lessFn a' (a' + blockSize) n xs' else Some xs')
         = Some (P @ T @ Z1')"
      "runs lessFn (2 * blockSize) Z1'" "mset Z1' = mset Z1"
      by auto
    have "merge_blocks lessFn n blockSize a b (P @ Z) = Some (a', xs')"
      using True r(1) T(1) unfolding Z Z0 by (subst merge_blocks.simps) simp
    moreover have "runs lessFn (2 * blockSize) (T @ Z1')"
      using runs_append [OF lT] T(2) r(3) by blast
    moreover have "mset (T @ Z1') = mset Z"
      using T(3) r(4) unfolding Z Z0 by simp
    ultimately show ?thesis using r(2) by auto
  next
    case False
    have eq: "merge_blocks lessFn n blockSize a b (P @ Z) = Some (a, P @ Z)"
      using False by (subst merge_blocks.simps) simp
    have lZ: "length Z < 2 * blockSize" using False b n by simp
    show ?thesis
    proof (cases "a + blockSize < n")
      case True
      have lA: "length A = blockSize" using True n by (simp add: A_def)
      have sA: "sorted_wrt lessFn A" and rZ0: "runs lessFn blockSize Z0"
        using rZ runs_append [OF lA] unfolding Z by blast+
      have lZ0: "length Z0 \<le> blockSize" using lZ by (simp add: Z0_def)
      have sZ0: "sorted_wrt lessFn Z0" using rZ0 lZ0 by (rule runs_sorted)
      have "\<exists>T. symMerge_func lessFn a (a + blockSize) n (P @ A @ Z0 @ []) = Some (P @ T @ []) \<and>
                 sorted_wrt lessFn T \<and> mset T = mset A + mset Z0"
      proof (rule symMerge_func_frame [OF tp])
        show "a < a + blockSize" using bs by simp
        show "a + blockSize < n" by (rule True)
        show "length P = a" by (rule lP)
        show "length A = a + blockSize - a" using lA by simp
        show "length Z0 = n - (a + blockSize)" using n lA unfolding Z0_def by simp
        show "sorted_wrt lessFn A" "sorted_wrt lessFn Z0" by (rule sA, rule sZ0)
      qed
      then obtain T where T: "symMerge_func lessFn a (a + blockSize) n (P @ Z) = Some (P @ T)"
        "sorted_wrt lessFn T" "mset T = mset Z" unfolding Z by auto
      have "length T = length Z" using T(3) by (metis size_mset)
      then have "runs lessFn (2 * blockSize) T" using T(2) lZ by (intro runs_short) simp_all
      then show ?thesis using eq True T by auto
    next
      case False
      then have "length Z \<le> blockSize" using n by simp
      then have "sorted_wrt lessFn Z" using rZ by (intro runs_sorted)
      then have "runs lessFn (2 * blockSize) Z" using lZ by (intro runs_short) simp_all
      then show ?thesis using eq False by auto
    qed
  qed
qed

lemma merge_passes_sorted:
  assumes tp: "total_preorder lessFn"
  shows "0 < blockSize \<Longrightarrow> n = length xs \<Longrightarrow> runs lessFn blockSize xs \<Longrightarrow>
           \<exists>ys. merge_passes lessFn n blockSize xs = Some ys \<and> sorted_wrt lessFn ys \<and> mset ys = mset xs"
proof (induction d \<equiv> "n - blockSize" arbitrary: blockSize xs rule: less_induct)
  case less
  show ?case
  proof (cases "blockSize < n")
    case True
    from merge_blocks_frame [OF tp less.prems(1), of "[]" 0 "2 * blockSize" n xs] less.prems
    obtain a xs1 Z where r: "merge_blocks lessFn n blockSize 0 (2 * blockSize) xs = Some (a, xs1)"
      "(if a + blockSize < n then symMerge_func lessFn a (a + blockSize) n xs1 else Some xs1) = Some Z"
      "runs lessFn (2 * blockSize) Z" "mset Z = mset xs"
      by auto
    have lZ: "length Z = n" using r(4) less.prems(2) by (metis size_mset)
    have "\<exists>ys. merge_passes lessFn n (blockSize * 2) Z = Some ys \<and> sorted_wrt lessFn ys \<and>
               mset ys = mset Z"
    proof (rule less.hyps)
      show "n - blockSize * 2 < n - blockSize" using True less.prems(1) by simp
      show "0 < blockSize * 2" using less.prems(1) by simp
      show "n = length Z" using lZ by simp
      show "runs lessFn (blockSize * 2) Z" using r(3) by (simp add: mult.commute)
    qed
    moreover have "merge_passes lessFn n blockSize xs = merge_passes lessFn n (blockSize * 2) Z"
      using True r(1) r(2) by (subst merge_passes.simps) simp
    ultimately show ?thesis using r(4) by simp
  next
    case False
    have "merge_passes lessFn n blockSize xs = Some xs"
      using False by (subst merge_passes.simps) simp
    moreover have "sorted_wrt lessFn xs"
      using less.prems False by (intro runs_sorted [of lessFn blockSize]) simp_all
    ultimately show ?thesis by simp
  qed
qed

lemma stable_func_sorted:
  assumes tp: "total_preorder lessFn" and n: "n = length xs"
  shows "\<exists>ys. stable_func lessFn n xs = Some ys \<and> sorted_wrt lessFn ys \<and> mset ys = mset xs"
proof -
  from insertion_blocks_frame [OF tp, of "[]" 0 20 n xs] n
  obtain a xs1 Z where r: "insertion_blocks lessFn n 0 20 xs = (a, xs1)"
    "insertionSort_func lessFn a n xs1 = Z" "runs lessFn 20 Z" "mset Z = mset xs"
    by (auto split: prod.splits)
  have lZ: "n = length Z" using r(4) n by (metis size_mset)
  have "\<exists>ys. merge_passes lessFn n 20 Z = Some ys \<and> sorted_wrt lessFn ys \<and> mset ys = mset Z"
    using lZ r(3) by (intro merge_passes_sorted [OF tp]) simp_all
  then show ?thesis
    using r unfolding stable_func_def Let_def by simp
qed

lemma SliceStable_sorted:
  assumes "total_preorder lessFn"
  shows "\<exists>ys. SliceStable lessFn xs = Some ys \<and> sorted_wrt lessFn ys \<and> mset ys = mset xs"
  using stable_func_sorted [OF assms refl, of xs] unfolding SliceStable_def by simp

section \<open>\<open>SignMessage\<close>: proofs\<close>

lemma Cmp_minus1: "Cmp a b = - 1 \<longleftrightarrow> a < b"
  by (simp add: Cmp_def)

lemma lessByM_iff: "lessByM x y \<longleftrightarrow> SetBytes (sig_M y) \<le> SetBytes (sig_M x)"
  by (auto simp: lessByM_def Let_def Cmp_minus1)

lemma total_preorder_lessByM: "total_preorder lessByM"
  unfolding total_preorder_def lessByM_iff by auto












lemma SignMessage_cases:
  assumes "SignMessage env senv msgsToSign localStateItem parties st evs = Some (Inr sigs, st')"
  shows "sigs = [] \<or>
         (\<exists>results. processKeySign senv (length msgsToSign) st evs = Some (Inr results, st') \<and>
                     SliceStable lessByM results = Some sigs)"
  using assms
  by (auto simp: SignMessage_def split: option.splits prod.splits if_splits sum.splits bool.splits)

text \<open>The sort returns whenever \<open>processKeySign\<close> has returned its signatures.\<close>

lemma SliceStable_lessByM_returns: "\<exists>sigs. SliceStable lessByM results = Some sigs"
  using SliceStable_sorted [OF total_preorder_lessByM, of results] by blast


section \<open>Claims\<close>

text \<open>
  C1 as stated fails: on a node whose stored key-share parses, two signatures that reach the
  end channel with \<open>M\<close> of value 1 and then 2 are returned by \<open>SignMessage\<close> with the larger
  value first.
\<close>

theorem C1_counterexample:
  "SignMessage sign0 senv0 [[1], [2]] item1 [''nodeA'', ''nodeB''] state0 [EndCh sig1, EndCh sig2]
     = Some (Inr [sig2, sig1], state0\<lparr>effects := [EffNotifyTaskDone, EffSaveAddressBook]\<rparr>) \<and>
   json_Unmarshal sign0 (LocalData item1) \<noteq> None \<and> json_Unmarshal sign0 [] = None \<and>
   SetBytes (sig_M sig2) = 2 \<and> SetBytes (sig_M sig1) = 1 \<and>
   \<not> sorted [SetBytes (sig_M sig2), SetBytes (sig_M sig1)]"
  by (simp add: SignMessage_def sign0_def senv0_def item1_def state0_def processKeySign_def
      SliceStable_def stable_func_def insertion_blocks.simps insertionSort_func_def
      insertionSort_outer.simps insertionSort_inner.simps merge_passes.simps swap_def
      lessByM_def SetBytes_def Cmp_def sig1_def sig2_def keyshare0_def Let_def)

text \<open>
  C1, amended. For every successful batch keysign, the list of signatures returned by
  \<open>SignMessage\<close> is sorted in descending order of the numeric (big-endian integer) value of
  each signature's \<open>M\<close> field: of two signatures in the list, the earlier has the larger or
  an equal value.
\<close>

theorem C1_sorted_descending:
  assumes "SignMessage env senv msgsToSign localStateItem parties st evs = Some (Inr sigs, st')"
  shows "sorted_wrt (\<lambda>x y. SetBytes (sig_M y) \<le> SetBytes (sig_M x)) sigs"
proof -
  from SignMessage_cases [OF assms] consider "sigs = []"
    | results where "SliceStable lessByM results = Some sigs"
    by blast
  then have "sorted_wrt lessByM sigs"
  proof cases
    case 1
    then show ?thesis by simp
  next
    case 2
    then show ?thesis
      using SliceStable_sorted [OF total_preorder_lessByM, of results] by simp
  qed
  then show ?thesis
    by (simp add: lessByM_iff [abs_def])
qed

theorem C1_sorted_descending_witness:
  "SignMessage sign0 senv0 [[1], [2]] item1 [''nodeA'', ''nodeB''] state0 [EndCh sig1, EndCh sig2]
     = Some (Inr [sig2, sig1], state0\<lparr>effects := [EffNotifyTaskDone, EffSaveAddressBook]\<rparr>) \<and>
   sorted_wrt (\<lambda>x y. SetBytes (sig_M y) \<le> SetBytes (sig_M x)) [sig2, sig1]"
proof -
  have run: "SignMessage sign0 senv0 [[1], [2]] item1 [''nodeA'', ''nodeB''] state0
               [EndCh sig1, EndCh sig2]
     = Some (Inr [sig2, sig1], state0\<lparr>effects := [EffNotifyTaskDone, EffSaveAddressBook]\<rparr>)"
    by (simp add: SignMessage_def sign0_def senv0_def item1_def state0_def processKeySign_def
        SliceStable_def stable_func_def insertion_blocks.simps insertionSort_func_def
        insertionSort_outer.simps insertionSort_inner.simps merge_passes.simps swap_def
        lessByM_def SetBytes_def Cmp_def sig1_def sig2_def keyshare0_def Let_def)
  from C1_sorted_descending [OF run] run show ?thesis by simp
qed


text \<open>
  C8. The subscription table never contains an empty leaf: starting from the table of
  \<open>NewCommunication\<close>, any sequence of \<open>SetSubscribe\<close> and \<open>CancelSubscribe\<close> runs without
  a panic and leaves every message type that is present in \<open>subscribers\<close> bound to a
  subscriber with at least one registered (msg-id, channel) entry.
\<close>

theorem C8_no_empty_leaves:
  "\<exists>c. run_sub_ops (NewCommunication rv h) ops = Some c \<and>
       (\<forall>t v. subscribers c t = Some v \<longrightarrow> (\<exists>ms msgID ch. v = Some ms \<and> ms msgID = Some ch))"
  using run_sub_ops_keeps [OF no_empty_leaves_New, of rv h ops]
  by (simp add: no_empty_leaves_def)

theorem C8_no_empty_leaves_witness:
  "\<exists>c. run_sub_ops (NewCommunication ''Asgard'' ''me'')
        [OpSetSubscribe TSSKeySignMsg ''m1'' 1, OpSetSubscribe TSSKeySignMsg ''m2'' 2,
         OpCancelSubscribe TSSKeySignMsg ''m1'', OpSetSubscribe TSSKeyGenMsg ''m3'' 3,
         OpCancelSubscribe TSSKeyGenMsg ''m3''] = Some c \<and>
       subscribers c TSSKeyGenMsg = None \<and>
       (\<exists>ms msgID ch. subscribers c TSSKeySignMsg = Some (Some ms) \<and> ms msgID = Some ch)"
  using C8_no_empty_leaves [of "''Asgard''" "''me''"
        "[OpSetSubscribe TSSKeySignMsg ''m1'' 1, OpSetSubscribe TSSKeySignMsg ''m2'' 2,
          OpCancelSubscribe TSSKeySignMsg ''m1'', OpSetSubscribe TSSKeyGenMsg ''m3'' 3,
          OpCancelSubscribe TSSKeyGenMsg ''m3'']"]
  by (simp add: NewCommunication_def SetSubscribe_def CancelSubscribe_def Subscribe_def
      UnSubscribe_def IsEmpty_def NewMessageIDSubscriber_def Let_def)

text \<open>
  C7. When the length header of an inbound frame declares more than 81920 bytes, that pass of
  the loop of \<open>readFromStream\<close> is its last: the reader logs the peer with the declared
  length and returns, whatever follows on the stream, and puts no message on any subscriber
  channel from then on.
\<close>

theorem C7_oversize_frame_dropped:
  assumes "\<not> stop_closed env i" and "\<not> header_deadline_fails env i"
    and "stream_Read LengthHeader evs = (n, hdr, None, rest)" and "LengthHeader \<le> n"
    and "MaxPayload < unat (Uint32 hdr)"
  shows "readFromStream_loop env c i evs =
           \<lparr>delivered = [], logged = [LogOversize (remote_peer env) (Uint32 hdr)]\<rparr>"
  using assms by (simp add: readFrame_def Let_def)

theorem C7_oversize_frame_dropped_witness:
  "\<not> stop_closed reader0 0 \<and> \<not> header_deadline_fails reader0 0 \<and>
   stream_Read LengthHeader [Data [1, 0x40, 1, 0, 1, 7, 7], Data [3, 0, 0, 0, 1, 8, 8]]
     = (4, [1, 0x40, 1, 0], None, [Data [1, 7, 7], Data [3, 0, 0, 0, 1, 8, 8]]) \<and>
   LengthHeader \<le> 4 \<and> MaxPayload < unat (Uint32 [1, 0x40, 1, 0]) \<and>
   readFromStream_loop reader0 comm0 0 [Data [1, 0x40, 1, 0, 1, 7, 7], Data [3, 0, 0, 0, 1, 8, 8]]
     = \<lparr>delivered = [], logged = [LogOversize ''peerA'' 81921]\<rparr>"
  using C7_oversize_frame_dropped [of reader0 0
      "[Data [1, 0x40, 1, 0, 1, 7, 7], Data [3, 0, 0, 0, 1, 8, 8]]" 4 "[1, 0x40, 1, 0]"
      "[Data [1, 7, 7], Data [3, 0, 0, 0, 1, 8, 8]]" comm0]
  by (simp add: reader0_def LengthHeader_def MaxPayload_def Uint32_def)

text \<open>
  C2 as stated fails: with an empty peer list nothing is written, although discovery finds a
  peer that a call naming it does reach.
\<close>

theorem C2_counterexample:
  "Found ''peerB'' \<in> set (peerChan net0) \<and> ''peerB'' \<noteq> host_ID comm0 \<and>
   sent (Broadcast net0 comm0 [''peerB''] [7, 8, 9]) = [(''peerB'', [3, 0, 0, 0, 7, 8, 9])] \<and>
   sent (Broadcast net0 comm0 [] [7, 8, 9]) = []"
  by (simp add: Broadcast_def broadcastToPeers_def net0_def comm0_def shouldWeWriteToPeer_def
      writeToStream_def connectToOnePeer_def PutUint32_def LengthHeader_def Let_def)

text \<open>
  C2, amended. For every call \<open>Broadcast(peers, msg)\<close> with an empty peer list, the message is
  sent to no one: \<open>broadcastToPeers\<close> returns before discovery, and no stream is opened.
\<close>

theorem C2_empty_peers_sends_nothing:
  "sent (Broadcast net c [] msg) = [] \<and> write_errors (Broadcast net c [] msg) = []"
  by (simp add: Broadcast_def broadcastToPeers_def)




text \<open>
  C9. When the timeout of \<open>processKeyGen\<close> fires while the last outbound message is nil, it
  returns the error "timeout before shared message is generated" at once: no call is made on
  the blame manager, and the verdict it holds is left as it was, so a verdict that named no
  node names none.
\<close>

theorem C9_keygen_timeout_before_first_message:
  assumes "lastMsg st = None"
  shows "processKeyGen env kenv item st (TimeoutFired # evs)
           = Some (Inl ErrTimeoutBeforeSharedMessage, st)"
  using assms by (simp add: keyGenTimeout_def Let_def)

theorem C9_keygen_timeout_before_first_message_witness:
  "lastMsg state0 = None \<and>
   processKeyGen senv0 kenv0 item0 state0 [TimeoutFired] = Some (Inl ErrTimeoutBeforeSharedMessage, state0) \<and>
   calls state0 = [] \<and> BlameNodes (blame state0) = []"
  using C9_keygen_timeout_before_first_message [of state0 senv0 kenv0 item0 "[]"]
  by (simp add: state0_def)

text \<open>
  C3 as stated fails: when the last outbound message is the unicast message of the second
  round, the timeout queries the unicast evidence of that same round, not of the round before.
\<close>

theorem C3_counterexample:
  "msg_IsBroadcast round2_unicast = False \<and>
   GetPreviousKeySignUicast senv0 (msg_Type round2_unicast) = ''SignRound1'' \<and>
   processKeySign senv0 1 state0 [OutCh round2_unicast, TimeoutFired]
     = Some (Inl ErrTssTimeOut,
             \<lparr>lastMsg = Some round2_unicast,
              blame = \<lparr>FailReason = ''TssTimeout'', IsUnicast = True, BlameNodes = [''nodeC'']\<rparr>,
              calls = [CallGetUnicastBlame ''SignRound2'',
                       CallSetBlame ''TssTimeout'' [''nodeC''] True ''KeySignTimeout broadcast'',
                       CallGetBroadcastBlame ''SignRound2'',
                       CallAddBlameNodes []],
              effects = [EffProcessOutCh round2_unicast TSSKeySignMsg]\<rparr>)"
  by (simp add: processKeySign_def keySignTimeout_def senv0_def state0_def round2_unicast_def
      do_GetUnicastBlame_def do_GetBroadcastBlame_def do_SetBlame_def do_AddBlameNodes_def
      missingShareSweep_def TssTimeout_def Let_def)

text \<open>
  C3, amended. On a keysign round timeout with a last outbound message recorded,
  \<open>processKeySign\<close> returns the timeout error after exactly two queries for evidence: first
  the unicast evidence, of the round of the last message itself if that message was unicast,
  and of the previous unicast round (\<open>GetPreviousKeySignUicast\<close>) if it was broadcast; then,
  in both cases, the broadcast evidence of the round of the last message.
\<close>

theorem C3_timeout_evidence_queries:
  assumes "lastMsg st = Some m"
  shows "\<exists>st'. processKeySign_loop env reqNum sigs st (TimeoutFired # evs) = Some (Inl ErrTssTimeOut, st') \<and>
           filter is_evidence_query (calls st') =
             filter is_evidence_query (calls st) @
               [CallGetUnicastBlame
                  (if msg_IsBroadcast m then GetPreviousKeySignUicast env (msg_Type m) else msg_Type m),
                CallGetBroadcastBlame (msg_Type m)]"
  using assms
  by (simp add: keySignTimeout_def Let_def missingShareSweep_queries do_GetUnicastBlame_def
      do_GetBroadcastBlame_def do_SetBlame_def do_AddBlameNodes_def split: prod.splits)

theorem C3_timeout_evidence_queries_witness:
  "lastMsg (state0\<lparr>lastMsg := Some round2_unicast\<rparr>) = Some round2_unicast \<and>
   (\<exists>st'. processKeySign_loop senv0 1 [] (state0\<lparr>lastMsg := Some round2_unicast\<rparr>) [TimeoutFired]
             = Some (Inl ErrTssTimeOut, st') \<and>
           filter is_evidence_query (calls st') =
             [CallGetUnicastBlame ''SignRound2'', CallGetBroadcastBlame ''SignRound2''])"
  using C3_timeout_evidence_queries [of "state0\<lparr>lastMsg := Some round2_unicast\<rparr>" round2_unicast
      senv0 1 "[]" "[]"]
  by (simp add: state0_def round2_unicast_def)

text \<open>
  C5. With the threshold \<open>\<lceil>(2/3)\<cdot>n\<rceil> - 1\<close> taken from the number \<open>n\<close> of participant keys of
  the stored key-share, a \<open>KeySign\<close> request with no more signer public keys than the
  threshold ends in an error with the empty response, and no party is formed, nothing is
  signed or waited for; once the message id is derived, the messages decode and there is a
  signer at all, the error is "not enough signers".
\<close>

theorem C5_threshold_gate:
  assumes "common_GetThreshold env = GetThreshold"
    and "GetLocalState env (PoolPubKey req) = Some localStateItem"
    and "int (length (SignerPubKeys req))
           \<le> \<lceil>2 / 3 * real (length (ParticipantKeys localStateItem))\<rceil> - 1"
  shows "\<exists>e. fst (KeySign env req) = Returned emptyResp (Some e) \<and>
              filter is_session_effect (snd (KeySign env req)) = [] \<and>
              (requestToMsgId env req \<noteq> None \<and> decodeMessages env (Messages req) \<noteq> None \<and>
               SignerPubKeys req \<noteq> [] \<longrightarrow> e = ErrNotEnoughSigners)"
  using assms
  by (auto simp: KeySign_def KeySign_checked_def GetThreshold_def split: option.splits prod.splits)

theorem C5_threshold_gate_witness:
  "common_GetThreshold srv0 = GetThreshold \<and>
   GetLocalState srv0 (PoolPubKey (req0 [''nodeA''])) = Some item0 \<and>
   int (length (SignerPubKeys (req0 [''nodeA''])))
     \<le> \<lceil>2 / 3 * real (length (ParticipantKeys item0))\<rceil> - 1 \<and>
   fst (KeySign srv0 (req0 [''nodeA''])) = Returned emptyResp (Some ErrNotEnoughSigners) \<and>
   filter is_session_effect (snd (KeySign srv0 (req0 [''nodeA'']))) = []"
  using C5_threshold_gate [of srv0 "req0 [''nodeA'']" item0]
  by (simp add: srv0_def req0_def item0_def)

text \<open>
  C6. When \<open>KeySign\<close> calls \<open>joinParty\<close> and the call returns an error, \<open>KeySign\<close> returns a
  nil error and a response of status \<open>Fail\<close> whose blame has the reason
  \<open>BlameTssCoordinator\<close> and names one node: the public key that \<open>GetPubKeyFromPeerID\<close> gives
  for the leader of the party-formation.
\<close>

theorem C6_join_party_failure_blames_leader:
  assumes "EffJoinParty msgID m signers \<in> set (snd (KeySign env req))"
    and "joinParty env msgID m signers = (result, leaderPeerID, True)"
  shows "fst (KeySign env req) =
           Returned \<lparr>resp_Signatures = [], resp_Status = Fail,
                     resp_Blame = NewBlame BlameTssCoordinator
                                    [fst (GetPubKeyFromPeerID env leaderPeerID)]\<rparr>
                    None"
proof -
  from assms(1) obtain i where i: "requestToMsgId env req = Some i"
    and mem: "EffJoinParty msgID m signers \<in> set (snd (KeySign_checked env req i))"
    by (auto simp: KeySign_def split: option.splits prod.splits)
  from KeySign_checked_JoinParty [OF mem] obtain item msgs ps where
    eq: "KeySign_checked env req i = KeySign_session env req i item msgs ps" by blast
  from mem eq KeySign_session_JoinParty [of msgID m signers env req i item msgs ps]
  have args: "msgID = i" "m = strings_Join (sort (Messages req)) '',''" "signers = SignerPubKeys req"
    by simp_all
  have "fst (KeySign_session env req i item msgs ps) =
          Returned \<lparr>resp_Signatures = [], resp_Status = Fail,
                    resp_Blame = NewBlame BlameTssCoordinator
                                   [fst (GetPubKeyFromPeerID env leaderPeerID)]\<rparr>
                   None"
    using assms(2) args by (simp add: KeySign_session_def Let_def)
  then show ?thesis
    using i eq by (auto simp: KeySign_def split: prod.splits)
qed

theorem C6_join_party_failure_blames_leader_witness:
  "EffJoinParty ''msg-1'' ''AQ=='' [''nodeA'', ''nodeB'']
     \<in> set (snd (KeySign srv0 (req0 [''nodeA'', ''nodeB'']))) \<and>
   joinParty srv0 ''msg-1'' ''AQ=='' [''nodeA'', ''nodeB''] = (None, ''peerB'', True) \<and>
   fst (KeySign srv0 (req0 [''nodeA'', ''nodeB''])) =
     Returned \<lparr>resp_Signatures = [], resp_Status = Fail,
               resp_Blame = \<lparr>FailReason = ''BlameTssCoordinator'', IsUnicast = False,
                             BlameNodes = [''nodeB'']\<rparr>\<rparr> None"
proof -
  have a: "EffJoinParty ''msg-1'' ''AQ=='' [''nodeA'', ''nodeB'']
             \<in> set (snd (KeySign srv0 (req0 [''nodeA'', ''nodeB''])))"
    by (simp add: KeySign_def KeySign_checked_def KeySign_session_def srv0_def req0_def item0_def
        GetThreshold_div isPartOfKeysignParty_def Let_def)
  have b: "joinParty srv0 ''msg-1'' ''AQ=='' [''nodeA'', ''nodeB''] = (None, ''peerB'', True)"
    by (simp add: srv0_def)
  from C6_join_party_failure_blames_leader [OF a b] a b show ?thesis
    by (simp add: srv0_def NewBlame_def BlameTssCoordinator_def)
qed

text \<open>
  C10 as stated fails: for a request with no signer public key and a pool key of which the
  node holds no share, the error is the one of the key-share lookup, which comes first, and
  not "empty signer pub keys".
\<close>

theorem C10_counterexample:
  "SignerPubKeys \<lparr>PoolPubKey = ''other'', Messages = [''AQ==''], SignerPubKeys = []\<rparr> = [] \<and>
   GetLocalState srv0 ''other'' = None \<and>
   fst (KeySign srv0 \<lparr>PoolPubKey = ''other'', Messages = [''AQ==''], SignerPubKeys = []\<rparr>)
     = Returned emptyResp (Some ErrGetLocalState) \<and>
   ErrGetLocalState \<noteq> ErrEmptySignerPubKeys"
  by (simp add: KeySign_def KeySign_checked_def srv0_def)

text \<open>
  C10, amended. A \<open>KeySign\<close> request whose list of signer public keys is empty ends in an
  explicit error with the empty response, not in a \<open>Fail\<close> response with a blame; no party
  is formed, nothing is signed or waited for and no failure is sent out. The error is
  "empty signer pub keys" when the message id is derived, the key-share of the pool key is
  found and every message decodes; otherwise it is the error of the first of these three
  steps that fails.
\<close>

theorem C10_empty_signers_first_error:
  assumes "SignerPubKeys req = []"
  shows "fst (KeySign env req) =
           Returned emptyResp
             (Some (if requestToMsgId env req = None then ErrRequestToMsgId
                    else if GetLocalState env (PoolPubKey req) = None then ErrGetLocalState
                    else if decodeMessages env (Messages req) = None then ErrDecodeMessage
                    else ErrEmptySignerPubKeys)) \<and>
         filter is_session_effect (snd (KeySign env req)) = []"
  using assms
  by (auto simp: KeySign_def KeySign_checked_def split: option.splits prod.splits)

theorem C10_empty_signers_first_error_witness:
  "SignerPubKeys (req0 []) = [] \<and>
   fst (KeySign srv0 (req0 [])) = Returned emptyResp (Some ErrEmptySignerPubKeys) \<and>
   filter is_session_effect (snd (KeySign srv0 (req0 []))) = []"
  using C10_empty_signers_first_error [of "req0 []" srv0]
  by (simp add: srv0_def req0_def item0_def)

end
